theory Spec2Isabelle
  imports Complex_Main
begin

section \<open>Python values and library calls\<close>

text \<open>
  The three scripts (\<^verbatim>\<open>gen_audio.py\<close>, \<^verbatim>\<open>gen_sprites.py\<close>, \<^verbatim>\<open>gen_textures.py\<close>) are
  straight-line Python over lists of floats and PIL images.  Floats are read as
  real numbers (exact arithmetic), Python integers as \<open>int\<close>.  Every library call
  that can raise is a value of \<open>error + 'a\<close>, with \<open>Inl\<close> the exception.
\<close>

datatype error = IndexError | ValueError | StructError

definition ebind :: "error + 'a \<Rightarrow> ('a \<Rightarrow> error + 'b) \<Rightarrow> error + 'b" where
  "ebind m f = (case m of Inl e \<Rightarrow> Inl e | Inr v \<Rightarrow> f v)"

text \<open>\<^verbatim>\<open>int(x)\<close> on a float truncates towards zero.\<close>

definition py_int :: "real \<Rightarrow> int" where
  "py_int r = (if 0 \<le> r then \<lfloor>r\<rfloor> else \<lceil>r\<rceil>)"

text \<open>\<^verbatim>\<open>range(n)\<close>, \<^verbatim>\<open>range(a, b)\<close> and \<^verbatim>\<open>range(a, b, s)\<close> for a positive step.\<close>

definition py_range :: "int \<Rightarrow> int list" where
  "py_range n = [0..n - 1]"

definition py_range2 :: "int \<Rightarrow> int \<Rightarrow> int list" where
  "py_range2 a b = [a..b - 1]"

definition py_range3 :: "int \<Rightarrow> int \<Rightarrow> int \<Rightarrow> int list" where
  "py_range3 a b s = filter (\<lambda>i. (i - a) mod s = 0) [a..b - 1]"

text \<open>
  Subscripts \<^verbatim>\<open>xs[i]\<close>.  Python accepts \<open>0 \<le> i < len(xs)\<close> and, counting from
  the end, \<open>-len(xs) \<le> i < 0\<close>; every other subscript raises IndexError.
\<close>

definition py_index :: "'a list \<Rightarrow> int \<Rightarrow> error + nat" where
  "py_index xs i =
     (if 0 \<le> i \<and> i < int (length xs) then Inr (nat i)
      else if - int (length xs) \<le> i \<and> i < 0 then Inr (nat (int (length xs) + i))
      else Inl IndexError)"

definition py_get :: "'a list \<Rightarrow> int \<Rightarrow> error + 'a" where
  "py_get xs i = ebind (py_index xs i) (\<lambda>j. Inr (xs ! j))"

definition py_set :: "'a list \<Rightarrow> int \<Rightarrow> 'a \<Rightarrow> error + 'a list" where
  "py_set xs i v = ebind (py_index xs i) (\<lambda>j. Inr (xs[j := v]))"

text \<open>\<^verbatim>\<open>xs[i] += v\<close> reads, adds and stores.\<close>

definition py_iadd :: "real list \<Rightarrow> int \<Rightarrow> real \<Rightarrow> error + real list" where
  "py_iadd xs i v = ebind (py_get xs i) (\<lambda>old. py_set xs i (old + v))"

subsection \<open>The module \<^verbatim>\<open>random\<close>\<close>

text \<open>
  The generator of the standard library is not part of the repository.  It is a
  parameter of every function below: a state type \<open>'g\<close> for the module's global
  state and the four calls the scripts make.  \<^verbatim>\<open>random.seed(n)\<close> replaces the
  whole state by one computed from \<open>n\<close> alone; each draw returns a value and the
  next state.
\<close>

record 'g rng =
  rng_seed :: "int \<Rightarrow> 'g"
  rng_randint :: "int \<Rightarrow> int \<Rightarrow> 'g \<Rightarrow> int \<times> 'g"
  rng_uniform :: "real \<Rightarrow> real \<Rightarrow> 'g \<Rightarrow> real \<times> 'g"
  rng_gauss :: "real \<Rightarrow> real \<Rightarrow> 'g \<Rightarrow> real \<times> 'g"

text \<open>The documented ranges of \<^verbatim>\<open>randint(a, b)\<close> and \<^verbatim>\<open>uniform(a, b)\<close>.\<close>

definition randint_in_range :: "'g rng \<Rightarrow> bool" where
  "randint_in_range ops =
     (\<forall>a b g. a \<le> b \<longrightarrow> a \<le> fst (rng_randint ops a b g) \<and> fst (rng_randint ops a b g) \<le> b)"

definition uniform_in_range :: "'g rng \<Rightarrow> bool" where
  "uniform_in_range ops =
     (\<forall>a b g. a \<le> b \<longrightarrow> a \<le> fst (rng_uniform ops a b g) \<and> fst (rng_uniform ops a b g) \<le> b)"

text \<open>
  A small concrete generator, used wherever a statement has to be run on an
  actual input: the state is a counter, \<open>seed\<close> sets it, every draw advances it.
  Its integer and uniform draws stay in their ranges; its Gaussian draw is the
  mean or one standard deviation above it.
\<close>

definition counter_rng :: "nat rng" where
  "counter_rng =
     \<lparr> rng_seed = (\<lambda>n. nat \<bar>n\<bar>),
       rng_randint = (\<lambda>a b g. (a + int g mod (b - a + 1), Suc g)),
       rng_uniform = (\<lambda>a b g. (a + (b - a) * real (g mod 2) / 2, Suc g)),
       rng_gauss = (\<lambda>mu sigma g. (mu + sigma * real (g mod 2), Suc g)) \<rparr>"

section \<open>\<^verbatim>\<open>gen_audio.py\<close>\<close>

definition SAMPLE_RATE :: int where
  "SAMPLE_RATE = 22050"

subsection \<open>\<^verbatim>\<open>write_wav\<close>\<close>

text \<open>
  \<^verbatim>\<open>struct.pack('<h', v)\<close> raises \<^verbatim>\<open>struct.error\<close> unless \<open>v\<close> fits a signed 16-bit
  integer.  The file written is the list of packed integers, one frame a sample.
\<close>

definition pack_h :: "int \<Rightarrow> error + int" where
  "pack_h v = (if - 32768 \<le> v \<and> v \<le> 32767 then Inr v else Inl StructError)"

definition clamped :: "real \<Rightarrow> real" where
  "clamped s = max (- 1.0) (min 1.0 s)"

fun write_wav :: "real list \<Rightarrow> error + int list" where
  "write_wav [] = Inr []"
| "write_wav (s # samples) =
     ebind (pack_h (py_int (clamped s * 32767))) (\<lambda>frame.
     ebind (write_wav samples) (\<lambda>frames. Inr (frame # frames)))"

subsection \<open>Normalisation (the last step of both generators)\<close>

text \<open>\<^verbatim>\<open>max(abs(s) for s in samples)\<close> raises ValueError on an empty list.\<close>

definition peak :: "real list \<Rightarrow> error + real" where
  "peak samples = (if samples = [] then Inl ValueError else Inr (Max (set (map abs samples))))"

definition normalize :: "real \<Rightarrow> real list \<Rightarrow> error + real list" where
  "normalize target samples =
     ebind (peak samples) (\<lambda>p.
       Inr (if p > 0 then map (\<lambda>s. s / p * target) samples else samples))"

subsection \<open>\<^verbatim>\<open>gen_nukage_sizzle\<close>\<close>

definition nukage_duration :: real where
  "nukage_duration = 3.0"

definition nukage_n_samples :: int where
  "nukage_n_samples = py_int (real_of_int SAMPLE_RATE * nukage_duration)"

text \<open>Layer 1, brown noise: the loop over \<^verbatim>\<open>range(n_samples)\<close>.\<close>

fun brown_layer :: "'g rng \<Rightarrow> int list \<Rightarrow> 'g \<Rightarrow> real \<Rightarrow> real list \<Rightarrow> error + ('g \<times> real \<times> real list)" where
  "brown_layer ops [] g brown samples = Inr (g, brown, samples)"
| "brown_layer ops (i # is) g brown samples =
     (let (d, g1) = rng_gauss ops 0 0.02 g;
          brown1 = brown + d;
          brown2 = brown1 * 0.998
      in ebind (py_iadd samples i (brown2 * 0.4)) (\<lambda>samples1.
           brown_layer ops is g1 brown2 samples1))"

text \<open>Layer 2, bubble pops: the inner loop over \<^verbatim>\<open>range(pop_len)\<close> ...\<close>

fun pop_burst :: "int \<Rightarrow> int \<Rightarrow> int \<Rightarrow> real \<Rightarrow> real \<Rightarrow> int list \<Rightarrow> real list \<Rightarrow> error + real list" where
  "pop_burst n_samples pop_start pop_len pop_freq pop_vol [] samples = Inr samples"
| "pop_burst n_samples pop_start pop_len pop_freq pop_vol (j # js) samples =
     (let idx = pop_start + j in
      if idx < n_samples then
        (let env = sin (pi * real_of_int j / real_of_int pop_len) in
         ebind (py_iadd samples idx
                  (sin (2 * pi * pop_freq * real_of_int j / real_of_int SAMPLE_RATE) * env * pop_vol))
           (\<lambda>samples1. pop_burst n_samples pop_start pop_len pop_freq pop_vol js samples1))
      else pop_burst n_samples pop_start pop_len pop_freq pop_vol js samples)"

text \<open>
  ... and the outer \<^verbatim>\<open>while t < duration\<close>, which ends only when the draws let
  \<open>t\<close> grow: \<open>None\<close> is the loop that never returns.
\<close>

partial_function (option) bubble_pops ::
    "'g rng \<Rightarrow> int \<Rightarrow> real \<Rightarrow> 'g \<Rightarrow> real list \<Rightarrow> (error + ('g \<times> real list)) option" where
  "bubble_pops ops n_samples t g samples =
     (if t < nukage_duration then
        (let (dt, g1) = rng_uniform ops 0.08 0.3 g;
             t1 = t + dt;
             pop_start = py_int (t1 * real_of_int SAMPLE_RATE);
             (len, g2) = rng_uniform ops 0.01 0.04 g1;
             pop_len = py_int (len * real_of_int SAMPLE_RATE);
             (pop_freq, g3) = rng_uniform ops 300 800 g2;
             (pop_vol, g4) = rng_uniform ops 0.05 0.15 g3
         in case pop_burst n_samples pop_start pop_len pop_freq pop_vol (py_range pop_len) samples of
              Inl e \<Rightarrow> Some (Inl e)
            | Inr samples1 \<Rightarrow> bubble_pops ops n_samples t1 g4 samples1)
      else Some (Inr (g, samples)))"

text \<open>Layer 3, high-frequency fizz.\<close>

fun fizz_layer :: "'g rng \<Rightarrow> int list \<Rightarrow> 'g \<Rightarrow> real list \<Rightarrow> error + ('g \<times> real list)" where
  "fizz_layer ops [] g samples = Inr (g, samples)"
| "fizz_layer ops (i # is) g samples =
     (let (fizz, g1) = rng_gauss ops 0 0.03 g;
          fizz1 = fizz * (sin (2 * pi * 4000 * real_of_int i / real_of_int SAMPLE_RATE) * 0.5)
      in ebind (py_iadd samples i fizz1) (\<lambda>samples1. fizz_layer ops is g1 samples1))"

text \<open>The crossfade of the two ends, in place, and the trim.\<close>

definition fade_len :: int where
  "fade_len = py_int (0.05 * real_of_int SAMPLE_RATE)"

fun crossfade :: "int \<Rightarrow> int list \<Rightarrow> real list \<Rightarrow> error + real list" where
  "crossfade n_samples [] samples = Inr samples"
| "crossfade n_samples (i # is) samples =
     (let t_fade = real_of_int i / real_of_int fade_len in
      ebind (py_get samples i) (\<lambda>a.
      ebind (py_get samples (n_samples - fade_len + i)) (\<lambda>b.
      ebind (py_set samples i (a * t_fade + b * (1 - t_fade))) (\<lambda>samples1.
        crossfade n_samples is samples1))))"

text \<open>
  The function in three stages.  \<open>nukage_mix\<close> is the buffer after the three
  layers; the state \<open>g0\<close> the module's generator has on entry is overwritten by
  \<^verbatim>\<open>random.seed(1234)\<close>.
\<close>

definition nukage_mix :: "'g rng \<Rightarrow> 'g \<Rightarrow> (error + (real list \<times> 'g)) option" where
  "nukage_mix ops g0 =
     (let n_samples = nukage_n_samples;
          samples = replicate (nat n_samples) (0::real);
          g = rng_seed ops 1234
      in case brown_layer ops (py_range n_samples) g 0 samples of
           Inl e \<Rightarrow> Some (Inl e)
         | Inr (g1, brown, samples1) \<Rightarrow>
             (case bubble_pops ops n_samples 0 g1 samples1 of
                None \<Rightarrow> None
              | Some (Inl e) \<Rightarrow> Some (Inl e)
              | Some (Inr (g2, samples2)) \<Rightarrow>
                  Some (ebind (fizz_layer ops (py_range n_samples) g2 samples2) (\<lambda>(g3, samples3).
                          Inr (samples3, g3)))))"

text \<open>\<open>nukage_layers\<close> is the buffer before normalisation: crossfaded and trimmed.\<close>

definition nukage_layers :: "'g rng \<Rightarrow> 'g \<Rightarrow> (error + (real list \<times> 'g)) option" where
  "nukage_layers ops g0 =
     map_option (\<lambda>r. ebind r (\<lambda>(samples, g).
        ebind (crossfade nukage_n_samples (py_range fade_len) samples) (\<lambda>samples1.
          Inr (take (nat (nukage_n_samples - fade_len)) samples1, g)))) (nukage_mix ops g0)"

text \<open>The buffer handed to \<^verbatim>\<open>write_wav\<close>, and the frames written.\<close>

definition nukage_samples :: "'g rng \<Rightarrow> 'g \<Rightarrow> (error + (real list \<times> 'g)) option" where
  "nukage_samples ops g0 =
     map_option (\<lambda>r. ebind r (\<lambda>(samples, g).
        ebind (normalize 0.7 samples) (\<lambda>samples1. Inr (samples1, g)))) (nukage_layers ops g0)"

definition gen_nukage_sizzle :: "'g rng \<Rightarrow> 'g \<Rightarrow> (error + (int list \<times> 'g)) option" where
  "gen_nukage_sizzle ops g0 =
     map_option (\<lambda>r. ebind r (\<lambda>(samples, g).
        ebind (write_wav samples) (\<lambda>frames. Inr (frames, g)))) (nukage_samples ops g0)"

subsection \<open>\<^verbatim>\<open>gen_computer_hum\<close>\<close>

definition hum_n_samples :: int where
  "hum_n_samples = py_int (real_of_int SAMPLE_RATE * 2.0)"

text \<open>The deterministic part of one sample: three sines under the slow warble.\<close>

definition hum_tone :: "int \<Rightarrow> real" where
  "hum_tone i =
     (let t = real_of_int i / real_of_int SAMPLE_RATE;
          s = sin (2 * pi * 60 * t) * 0.5;
          s1 = s + sin (2 * pi * 120 * t) * 0.25;
          s2 = s1 + sin (2 * pi * 180 * t) * 0.12;
          warble = 1.0 + 0.08 * sin (2 * pi * 0.5 * t)
      in s2 * warble)"

fun hum_loop :: "'g rng \<Rightarrow> int list \<Rightarrow> 'g \<Rightarrow> real list \<Rightarrow> error + ('g \<times> real list)" where
  "hum_loop ops [] g samples = Inr (g, samples)"
| "hum_loop ops (i # is) g samples =
     (let s = hum_tone i;
          (d, g1) = rng_gauss ops 0 0.005 g;
          s1 = s + d
      in ebind (py_set samples i s1) (\<lambda>samples1. hum_loop ops is g1 samples1))"

text \<open>
  No call of \<^verbatim>\<open>random.seed\<close> here: the draws start from whatever state \<open>g0\<close> the
  module's generator is in when the function is entered.
\<close>

definition hum_layers :: "'g rng \<Rightarrow> 'g \<Rightarrow> error + (real list \<times> 'g)" where
  "hum_layers ops g0 =
     (let n_samples = hum_n_samples;
          samples = replicate (nat n_samples) (0::real)
      in ebind (hum_loop ops (py_range n_samples) g0 samples) (\<lambda>(g1, samples1).
           Inr (samples1, g1)))"

definition hum_samples :: "'g rng \<Rightarrow> 'g \<Rightarrow> error + (real list \<times> 'g)" where
  "hum_samples ops g0 =
     ebind (hum_layers ops g0) (\<lambda>(samples, g).
     ebind (normalize 0.6 samples) (\<lambda>samples1. Inr (samples1, g)))"

definition gen_computer_hum :: "'g rng \<Rightarrow> 'g \<Rightarrow> error + (int list \<times> 'g)" where
  "gen_computer_hum ops g0 =
     ebind (hum_samples ops g0) (\<lambda>(samples, g).
     ebind (write_wav samples) (\<lambda>frames. Inr (frames, g)))"

section \<open>PIL images and drawing\<close>

text \<open>
  An image is its size and its pixels.  \<^verbatim>\<open>Image.new\<close> fills every pixel with one
  colour; \<^verbatim>\<open>img.getpixel\<close>, \<^verbatim>\<open>img.putpixel\<close> and the access object of
  \<^verbatim>\<open>img.load()\<close> raise IndexError outside the image (the scripts only ever use
  non-negative coordinates).
\<close>

type_synonym point = "int \<times> int"
type_synonym box = "int \<times> int \<times> int \<times> int"
type_synonym rgb = "int \<times> int \<times> int"
type_synonym rgba = "int \<times> int \<times> int \<times> int"

record 'c image =
  iw :: int
  ih :: int
  px :: "point \<Rightarrow> 'c"

definition in_bounds :: "'c image \<Rightarrow> point \<Rightarrow> bool" where
  "in_bounds img p = (0 \<le> fst p \<and> fst p < iw img \<and> 0 \<le> snd p \<and> snd p < ih img)"

definition new_image :: "int \<Rightarrow> int \<Rightarrow> 'c \<Rightarrow> 'c image" where
  "new_image w h c = \<lparr> iw = w, ih = h, px = (\<lambda>p. c) \<rparr>"

definition getpixel :: "'c image \<Rightarrow> point \<Rightarrow> error + 'c" where
  "getpixel img p = (if in_bounds img p then Inr (px img p) else Inl IndexError)"

definition putpixel :: "'c image \<Rightarrow> point \<Rightarrow> 'c \<Rightarrow> error + 'c image" where
  "putpixel img p c =
     (if in_bounds img p then Inr (img\<lparr> px := (px img)(p := c) \<rparr>) else Inl IndexError)"

text \<open>
  \<^verbatim>\<open>ImageDraw\<close> clips what it draws to the image.  A filled rectangle covers its
  box, both corners included (the boxes the scripts give are ordered).
\<close>

definition paint :: "'c image \<Rightarrow> (point \<Rightarrow> bool) \<Rightarrow> 'c \<Rightarrow> 'c image" where
  "paint img covers c = img\<lparr> px := (\<lambda>p. if in_bounds img p \<and> covers p then c else px img p) \<rparr>"

definition in_box :: "box \<Rightarrow> point \<Rightarrow> bool" where
  "in_box bx p = (case bx of (x0, y0, x1, y1) \<Rightarrow>
                    x0 \<le> fst p \<and> fst p \<le> x1 \<and> y0 \<le> snd p \<and> snd p \<le> y1)"

definition draw_rectangle :: "'c image \<Rightarrow> box \<Rightarrow> 'c \<Rightarrow> 'c image" where
  "draw_rectangle img bx fill = paint img (in_box bx) fill"

text \<open>
  The rasterisation of the other shapes and the two smoothing filters belong to
  the imaging library, not to the repository: they are parameters.  Each shape
  is the set of pixels the call covers.
\<close>

record pil =
  pil_ellipse_fill :: "box \<Rightarrow> point \<Rightarrow> bool"
  pil_ellipse_outline :: "box \<Rightarrow> point \<Rightarrow> bool"
  pil_line :: "point \<Rightarrow> point \<Rightarrow> int \<Rightarrow> point \<Rightarrow> bool"
  pil_polygon_fill :: "point list \<Rightarrow> point \<Rightarrow> bool"
  pil_polygon_outline :: "point list \<Rightarrow> point \<Rightarrow> bool"
  pil_rectangle_outline :: "box \<Rightarrow> int \<Rightarrow> point \<Rightarrow> bool"
  pil_smooth :: "rgb image \<Rightarrow> rgb image"
  pil_smooth_more :: "rgb image \<Rightarrow> rgb image"

definition draw_ellipse :: "pil \<Rightarrow> 'c image \<Rightarrow> box \<Rightarrow> 'c \<Rightarrow> 'c image" where
  "draw_ellipse lib img bx fill = paint img (pil_ellipse_fill lib bx) fill"

definition draw_ellipse_outlined :: "pil \<Rightarrow> 'c image \<Rightarrow> box \<Rightarrow> 'c \<Rightarrow> 'c \<Rightarrow> 'c image" where
  "draw_ellipse_outlined lib img bx fill outline =
     paint (paint img (pil_ellipse_fill lib bx) fill) (pil_ellipse_outline lib bx) outline"

definition draw_line :: "pil \<Rightarrow> 'c image \<Rightarrow> point \<Rightarrow> point \<Rightarrow> 'c \<Rightarrow> int \<Rightarrow> 'c image" where
  "draw_line lib img p q fill width = paint img (pil_line lib p q width) fill"

definition draw_polygon_fill :: "pil \<Rightarrow> 'c image \<Rightarrow> point list \<Rightarrow> 'c \<Rightarrow> 'c image" where
  "draw_polygon_fill lib img pts fill = paint img (pil_polygon_fill lib pts) fill"

definition draw_polygon_outline :: "pil \<Rightarrow> 'c image \<Rightarrow> point list \<Rightarrow> 'c \<Rightarrow> 'c image" where
  "draw_polygon_outline lib img pts outline = paint img (pil_polygon_outline lib pts) outline"

definition draw_rectangle_outline :: "pil \<Rightarrow> 'c image \<Rightarrow> box \<Rightarrow> 'c \<Rightarrow> int \<Rightarrow> 'c image" where
  "draw_rectangle_outline lib img bx outline width =
     paint img (pil_rectangle_outline lib bx width) outline"

text \<open>What the statements below assume of the library where they need it.\<close>

definition shapes_in_box :: "pil \<Rightarrow> bool" where
  "shapes_in_box lib =
     (\<forall>bx p. (pil_ellipse_fill lib bx p \<or> pil_ellipse_outline lib bx p) \<longrightarrow> in_box bx p)"

definition lines_in_box :: "pil \<Rightarrow> bool" where
  "lines_in_box lib =
     (\<forall>x0 y0 x1 y1 p. pil_line lib (x0, y0) (x1, y1) 1 p \<longrightarrow>
        in_box (min x0 x1, min y0 y1, max x0 x1, max y0 y1) p)"

definition ellipse_centre_filled :: "pil \<Rightarrow> bool" where
  "ellipse_centre_filled lib =
     (\<forall>x y r. 0 \<le> r \<longrightarrow> pil_ellipse_fill lib (x - r, y - r, x + r, y + r) (x, y))"

definition channel_ok :: "int \<Rightarrow> bool" where
  "channel_ok v = (0 \<le> v \<and> v \<le> 255)"

definition rgb_ok :: "rgb \<Rightarrow> bool" where
  "rgb_ok c = (case c of (r, g, b) \<Rightarrow> channel_ok r \<and> channel_ok g \<and> channel_ok b)"

definition rgba_ok :: "rgba \<Rightarrow> bool" where
  "rgba_ok c = (case c of (r, g, b, a) \<Rightarrow> channel_ok r \<and> channel_ok g \<and> channel_ok b \<and> channel_ok a)"


text \<open>
  A small concrete library for running statements on an actual input: the
  ellipse through the centres of the border pixels of its box (so the ellipse
  of a box of three by three pixels is a plus: its corners stay out), the
  bounding box of a line or polygon, a frame for an outlined rectangle, and
  filters that return the image as it is.
\<close>

definition plain_ellipse :: "box \<Rightarrow> point \<Rightarrow> bool" where
  "plain_ellipse bx p =
     (case bx of (x0, y0, x1, y1) \<Rightarrow>
        in_box bx p \<and>
        (2 * fst p - x0 - x1)\<^sup>2 * (y1 - y0)\<^sup>2 + (2 * snd p - y0 - y1)\<^sup>2 * (x1 - x0)\<^sup>2
          \<le> (x1 - x0)\<^sup>2 * (y1 - y0)\<^sup>2)"

definition points_box :: "point list \<Rightarrow> point \<Rightarrow> bool" where
  "points_box pts p =
     (pts \<noteq> [] \<and> (\<exists>a \<in> set pts. fst a \<le> fst p) \<and> (\<exists>a \<in> set pts. fst p \<le> fst a)
        \<and> (\<exists>a \<in> set pts. snd a \<le> snd p) \<and> (\<exists>a \<in> set pts. snd p \<le> snd a))"

definition plain_pil :: pil where
  "plain_pil =
     \<lparr> pil_ellipse_fill = plain_ellipse,
       pil_ellipse_outline = (\<lambda>bx p. plain_ellipse bx p \<and>
          (case bx of (x0, y0, x1, y1) \<Rightarrow> \<not> plain_ellipse (x0 + 1, y0 + 1, x1 - 1, y1 - 1) p)),
       pil_line = (\<lambda>a b width p.
          in_box (min (fst a) (fst b), min (snd a) (snd b),
                  max (fst a) (fst b) + width - 1, max (snd a) (snd b) + width - 1) p),
       pil_polygon_fill = points_box,
       pil_polygon_outline = points_box,
       pil_rectangle_outline = (\<lambda>bx width p. in_box bx p \<and>
          (case bx of (x0, y0, x1, y1) \<Rightarrow>
             \<not> in_box (x0 + width, y0 + width, x1 - width, y1 - width) p)),
       pil_smooth = (\<lambda>img. img),
       pil_smooth_more = (\<lambda>img. img) \<rparr>"

subsection \<open>Loops over pixels\<close>

text \<open>
  \<^verbatim>\<open>for y in ys: for x in xs\<close> and \<^verbatim>\<open>for x in xs: for y in ys\<close>, as the list of
  the \<open>(x, y)\<close> visited.
\<close>

definition for_yx :: "int list \<Rightarrow> int list \<Rightarrow> point list" where
  "for_yx ys xs = concat (map (\<lambda>y. map (\<lambda>x. (x, y)) xs) ys)"

definition for_xy :: "int list \<Rightarrow> int list \<Rightarrow> point list" where
  "for_xy xs ys = concat (map (\<lambda>x. map (\<lambda>y. (x, y)) ys) xs)"

text \<open>
  The shading and noise loops all have one body shape: read the pixel, compute
  (drawing from the generator or not), store the pixel.  \<open>step\<close> is the body: from
  the position, the colour read and the generator's state to the colour stored
  and the next state; a body that skips the pixel returns both unchanged.
\<close>

fun pixel_pass ::
    "(point \<Rightarrow> 'c \<Rightarrow> 'g \<Rightarrow> 'c \<times> 'g) \<Rightarrow> point list \<Rightarrow> 'c image \<Rightarrow> 'g \<Rightarrow> error + ('c image \<times> 'g)" where
  "pixel_pass step [] img gs = Inr (img, gs)"
| "pixel_pass step (p # ps) img gs =
     ebind (getpixel img p) (\<lambda>c.
       (let (c1, gs1) = step p c gs in
        ebind (putpixel img p c1) (\<lambda>img1. pixel_pass step ps img1 gs1)))"

definition clamp255 :: "int \<Rightarrow> int" where
  "clamp255 v = max 0 (min 255 v)"

section \<open>\<^verbatim>\<open>gen_sprites.py\<close>\<close>

subsection \<open>\<^verbatim>\<open>gen_barrel\<close>\<close>

text \<open>The curve shading: \<open>shade\<close> depends on the column only.\<close>

definition barrel_shade :: "int \<Rightarrow> int \<Rightarrow> int \<Rightarrow> int" where
  "barrel_shade body_left body_right x =
     (let center_dist = \<bar>real_of_int x - real_of_int (body_left + body_right) / 2\<bar>
                          / (real_of_int (body_right - body_left) / 2)
      in py_int (20 * (1 - center_dist * center_dist)))"

definition barrel_shade_step :: "int \<Rightarrow> int \<Rightarrow> point \<Rightarrow> rgba \<Rightarrow> 'g \<Rightarrow> rgba \<times> 'g" where
  "barrel_shade_step body_left body_right p c gs =
     (case c of (r, g, b, a) \<Rightarrow>
        (let shade = barrel_shade body_left body_right (fst p) in
         if a > 0 then ((min 255 (r + shade), min 255 (g + shade), min 255 (b + shade div 2), a), gs)
         else (c, gs)))"

text \<open>The noise body shared by the barrel (\<open>k = 8\<close>) and the column (\<open>k = 5\<close>).\<close>

definition sprite_noise_step :: "'g rng \<Rightarrow> int \<Rightarrow> point \<Rightarrow> rgba \<Rightarrow> 'g \<Rightarrow> rgba \<times> 'g" where
  "sprite_noise_step ops k p c gs =
     (case c of (r, g, b, a) \<Rightarrow>
        if a > 0 then
          (let (v, gs1) = rng_randint ops (- k) k gs in
           ((clamp255 (r + v), clamp255 (g + v), clamp255 (b + v), a), gs1))
        else (c, gs))"

text \<open>The image after the body fill and the shading loop (\<^verbatim>\<open>for x: for y\<close>).\<close>

definition barrel_shaded :: "'g \<Rightarrow> error + (rgba image \<times> 'g)" where
  "barrel_shaded g0 =
     (let W = 32; H = 48;
          img = new_image W H (0, 0, 0, 0);
          body_top = 6; body_bot = 44;
          body_left = 4; body_right = 27;
          img1 = draw_rectangle img (body_left, body_top, body_right, body_bot) (90, 75, 55, 255)
      in pixel_pass (barrel_shade_step body_left body_right)
           (for_xy (py_range2 body_left (body_right + 1)) (py_range2 body_top (body_bot + 1)))
           img1 g0)"

text \<open>The bands, the glow, the symbol and the top: the image before the noise.\<close>

definition barrel_drawn :: "pil \<Rightarrow> 'g \<Rightarrow> error + (rgba image \<times> 'g)" where
  "barrel_drawn lib g0 =
     ebind (barrel_shaded g0) (\<lambda>(img, g1).
       (let body_top = 6; body_bot = 44;
            body_left = 4; body_right = 27;
            img1 = fold (\<lambda>band_y im. draw_rectangle im (body_left, band_y, body_right, band_y + 1)
                                         (70, 65, 55, 255))
                     [body_top + 2, body_top + 10, body_bot - 10, body_bot - 2] img;
            mid_y = (body_top + body_bot) div 2;
            mid_x = (body_left + body_right) div 2;
            img2 = draw_rectangle img1 (mid_x - 6, mid_y - 5, mid_x + 6, mid_y + 5) (40, 140, 30, 255);
            img3 = draw_rectangle img2 (mid_x - 4, mid_y - 3, mid_x + 4, mid_y + 3) (60, 180, 40, 255);
            img4 = draw_ellipse lib img3 (mid_x - 3, mid_y - 3, mid_x + 3, mid_y + 3) (30, 120, 20, 255);
            img5 = draw_ellipse lib img4 (mid_x - 1, mid_y - 1, mid_x + 1, mid_y + 1) (80, 200, 50, 255);
            img6 = draw_ellipse_outlined lib img5
                     (body_left + 1, body_top - 3, body_right - 1, body_top + 3)
                     (100, 85, 65, 255) (70, 60, 45, 255)
        in Inr (img6, g1)))"

definition gen_barrel :: "pil \<Rightarrow> 'g rng \<Rightarrow> 'g \<Rightarrow> error + (rgba image \<times> 'g)" where
  "gen_barrel lib ops g0 =
     ebind (barrel_drawn lib g0) (\<lambda>(img, g1).
       (let W = 32; H = 48;
            g2 = rng_seed ops 111
        in pixel_pass (sprite_noise_step ops 8) (for_yx (py_range H) (py_range W)) img g2))"

subsection \<open>\<^verbatim>\<open>gen_computer_panel\<close>\<close>

text \<open>The text blocks: the segments of one row, then the five rows.\<close>

fun panel_segments :: "'g rng \<Rightarrow> int \<Rightarrow> int list \<Rightarrow> rgba image \<Rightarrow> 'g \<Rightarrow> rgba image \<times> 'g" where
  "panel_segments ops y [] img gs = (img, gs)"
| "panel_segments ops y (seg # segs) img gs =
     (let (a, gs1) = rng_randint ops 0 20 gs;
          x_start = 9 + a;
          (l, gs2) = rng_randint ops 3 10 gs1;
          x_end = min 39 (x_start + l);
          img1 = draw_rectangle img (x_start, y, x_end, y + 2) (50, 200, 150, 255)
      in panel_segments ops y segs img1 gs2)"

fun panel_rows :: "'g rng \<Rightarrow> int list \<Rightarrow> rgba image \<Rightarrow> 'g \<Rightarrow> rgba image \<times> 'g" where
  "panel_rows ops [] img gs = (img, gs)"
| "panel_rows ops (row # rows) img gs =
     (let y = 10 + row * 5;
          (line_len, gs1) = rng_randint ops 8 28 gs;
          (n_seg, gs2) = rng_randint ops 2 5 gs1;
          (img1, gs3) = panel_segments ops y (py_range n_seg) img gs2
      in panel_rows ops rows img1 gs3)"

definition gen_computer_panel :: "pil \<Rightarrow> 'g rng \<Rightarrow> 'g \<Rightarrow> rgba image \<times> 'g" where
  "gen_computer_panel lib ops g0 =
     (let W = 48; H = 48;
          img = new_image W H (0, 0, 0, 0);
          img1 = draw_rectangle img (2, 2, 45, 45) (50, 50, 55, 255);
          img2 = draw_rectangle img1 (3, 3, 44, 44) (60, 60, 65, 255);
          img3 = draw_rectangle img2 (6, 6, 41, 38) (15, 40, 50, 255);
          img4 = draw_rectangle img3 (6, 6, 41, 7) (30, 60, 70, 255);
          img5 = draw_rectangle img4 (6, 6, 7, 38) (25, 55, 65, 255);
          img6 = fold (\<lambda>y im. draw_line lib im (8, y) (39, y) (20, 55, 65, 255) 1)
                   (py_range3 8 37 2) img5;
          g1 = rng_seed ops 222;
          (img7, g2) = panel_rows ops (py_range 5) img6 g1;
          img8 = draw_rectangle img7 (9, 33, 12, 35) (100, 255, 200, 255);
          img9 = draw_rectangle img8 (8, 40, 14, 43) (40, 40, 45, 255);
          img10 = draw_ellipse lib img9 (38, 40, 42, 44) (200, 50, 30, 255);
          img11 = draw_ellipse lib img10 (33, 40, 37, 44) (30, 200, 60, 255)
      in (img11, g2))"

subsection \<open>\<^verbatim>\<open>gen_tech_column\<close>\<close>

definition column_shade_step :: "int \<Rightarrow> int \<Rightarrow> point \<Rightarrow> rgba \<Rightarrow> 'g \<Rightarrow> rgba \<times> 'g" where
  "column_shade_step col_left col_right p c gs =
     (case c of (r, g, b, a) \<Rightarrow>
        if a > 0 then
          (let center = real_of_int (col_left + col_right) / 2;
               dist = \<bar>real_of_int (fst p) - center\<bar> / (real_of_int (col_right - col_left) / 2);
               shade = py_int (25 * (1 - dist * dist))
           in ((min 255 (r + shade), min 255 (g + shade), min 255 (b + shade), a), gs))
        else (c, gs))"

text \<open>The warning stripe writes its pixels without reading them.\<close>

fun column_stripe :: "(int \<times> int) list \<Rightarrow> rgba image \<Rightarrow> error + rgba image" where
  "column_stripe [] img = Inr img"
| "column_stripe ((i, x) # rest) img =
     (let y = 32 + i in
      ebind (if (x + i) mod 4 < 2 then putpixel img (x, y) (180, 150, 30, 255)
             else putpixel img (x, y) (40, 40, 45, 255))
        (\<lambda>img1. column_stripe rest img1))"

definition column_shaded :: "'g \<Rightarrow> error + (rgba image \<times> 'g)" where
  "column_shaded g0 =
     (let W = 24; H = 64;
          img = new_image W H (0, 0, 0, 0);
          col_left = 4; col_right = 19;
          img1 = draw_rectangle img (col_left, 2, col_right, 61) (100, 100, 105, 255)
      in pixel_pass (column_shade_step col_left col_right)
           (for_yx (py_range2 2 62) (py_range2 col_left (col_right + 1))) img1 g0)"

definition column_drawn :: "pil \<Rightarrow> 'g \<Rightarrow> error + (rgba image \<times> 'g)" where
  "column_drawn lib g0 =
     ebind (column_shaded g0) (\<lambda>(img, g1).
       (let col_left = 4; col_right = 19;
            img1 = fold (\<lambda>band_y im.
                      draw_line lib
                        (draw_rectangle im (col_left, band_y, col_right, band_y + 2) (75, 75, 80, 255))
                        (col_left, band_y + 3) (col_right, band_y + 3) (120, 120, 125, 255) 1)
                     [4, 15, 30, 45, 59] img;
            img2 = draw_rectangle img1 (col_left - 2, 0, col_right + 2, 4) (80, 80, 85, 255);
            img3 = draw_rectangle img2 (col_left - 2, 60, col_right + 2, 63) (80, 80, 85, 255)
        in ebind (column_stripe
                    (concat (map (\<lambda>i. map (\<lambda>x. (i, x)) (py_range2 (col_left + 1) col_right))
                               (py_range 4))) img3)
             (\<lambda>img4. Inr (img4, g1))))"

definition gen_tech_column :: "pil \<Rightarrow> 'g rng \<Rightarrow> 'g \<Rightarrow> error + (rgba image \<times> 'g)" where
  "gen_tech_column lib ops g0 =
     ebind (column_drawn lib g0) (\<lambda>(img, g1).
       (let W = 24; H = 64;
            g2 = rng_seed ops 333
        in pixel_pass (sprite_noise_step ops 5) (for_yx (py_range H) (py_range W)) img g2))"

section \<open>\<^verbatim>\<open>gen_textures.py\<close>\<close>







subsection \<open>\<^verbatim>\<open>gen_brown_brick\<close>\<close>




subsection \<open>\<^verbatim>\<open>gen_brown_stone_floor\<close>\<close>



subsection \<open>\<^verbatim>\<open>gen_gray_concrete\<close>\<close>



subsection \<open>\<^verbatim>\<open>gen_gray_tile_floor\<close>\<close>



subsection \<open>\<^verbatim>\<open>gen_dark_teal_metal\<close>\<close>


subsection \<open>\<^verbatim>\<open>gen_tan_walkway\<close>\<close>



subsection \<open>\<^verbatim>\<open>gen_blue_tech_panel\<close>\<close>


subsection \<open>\<^verbatim>\<open>gen_tech_floor\<close>\<close>


subsection \<open>\<^verbatim>\<open>gen_green_stone\<close>\<close>


subsection \<open>\<^verbatim>\<open>gen_ceiling_panel\<close>\<close>


section \<open>Vocabulary of the statements\<close>

text \<open>The first \<open>n\<close> Gaussian draws from a state, and the state they leave.\<close>

fun gauss_draws :: "'g rng \<Rightarrow> real \<Rightarrow> real \<Rightarrow> nat \<Rightarrow> 'g \<Rightarrow> real list \<times> 'g" where
  "gauss_draws ops mu sigma 0 g = ([], g)"
| "gauss_draws ops mu sigma (Suc n) g =
     (let (d, g1) = rng_gauss ops mu sigma g;
          (ds, g2) = gauss_draws ops mu sigma n g1
      in (d # ds, g2))"

text \<open>
  The running brown-noise value after a list of draws, one step a draw: the draw
  is added first and the decay applies to the sum.
\<close>

definition brown_step :: "real \<Rightarrow> real \<Rightarrow> real" where
  "brown_step value d = (value + d) * 0.998"

definition brown_value :: "real \<Rightarrow> real list \<Rightarrow> real" where
  "brown_value b ds = foldl brown_step b ds"

text \<open>
  The recurrence as the specification words it, \<^verbatim>\<open>value = value*0.998 + gaussian(0, 0.02)\<close>:
  the decay on the previous value only.
\<close>

definition brown_step_claimed :: "real \<Rightarrow> real \<Rightarrow> real" where
  "brown_step_claimed value d = value * 0.998 + d"

text \<open>The alpha channel of a pixel.\<close>

definition alpha :: "rgba \<Rightarrow> int" where
  "alpha c = (case c of (r, g, b, a) \<Rightarrow> a)"

text \<open>The monitor casing of the computer panel, the first rectangle drawn.\<close>

definition panel_casing :: "point \<Rightarrow> bool" where
  "panel_casing p = in_box (2, 2, 45, 45) p"

text \<open>An image is opaque exactly on a region: alpha 255 inside, alpha 0 outside.\<close>

definition opaque_on :: "(point \<Rightarrow> bool) \<Rightarrow> rgba image \<Rightarrow> bool" where
  "opaque_on region img = (\<forall>p. alpha (px img p) = (if region p then 255 else 0))"

text \<open>Sizes: drawing and the pixel loop keep them.\<close>

definition sized :: "int \<Rightarrow> int \<Rightarrow> 'c image \<Rightarrow> bool" where
  "sized w h img = (iw img = w \<and> ih img = h)"

text \<open>Nothing but transparent black outside a region.\<close>

definition clear_outside :: "(point \<Rightarrow> bool) \<Rightarrow> rgba image \<Rightarrow> bool" where
  "clear_outside region img = (\<forall>p. \<not> region p \<longrightarrow> px img p = (0, 0, 0, 0))"



text \<open>
  A pixel lies in the band of the inner glow of the barrel: every colour channel
  within 8 (the noise bound) of \<open>(80, 200, 50)\<close>, alpha 255.
\<close>

definition near_glow :: "rgba \<Rightarrow> bool" where
  "near_glow c = (case c of (r, g, b, a) \<Rightarrow>
                    \<bar>r - 80\<bar> \<le> 8 \<and> \<bar>g - 200\<bar> \<le> 8 \<and> \<bar>b - 50\<bar> \<le> 8 \<and> a = 255)"

text \<open>The pixel of a generator's result at a position, if the generator returned one.\<close>

definition pixel_of :: "error + ('c image \<times> 'g) \<Rightarrow> point \<Rightarrow> 'c option" where
  "pixel_of res p =
     (case res of Inl e \<Rightarrow> None
      | Inr (img, g) \<Rightarrow> (case getpixel img p of Inl e \<Rightarrow> None | Inr c \<Rightarrow> Some c))"

section \<open>Basic facts\<close>

lemma ebind_simps [simp]:
  "ebind (Inl e) f = Inl e"
  "ebind (Inr v) f = f v"
  by (simp_all add: ebind_def)

lemma ebind_eq_Inr: "ebind m f = Inr r \<longleftrightarrow> (\<exists>v. m = Inr v \<and> f v = Inr r)"
  by (cases m) simp_all

lemma py_int_of_int [simp]: "py_int (real_of_int k) = k"
  by (simp add: py_int_def)

lemma py_int_mono: "a \<le> b \<Longrightarrow> py_int a \<le> py_int b"
  unfolding py_int_def
  by (smt (verit, best) ceiling_mono floor_mono floor_le_ceiling zero_le_floor ceiling_le_zero)

lemma nukage_n_samples_eq: "nukage_n_samples = 66150"
  by (simp add: nukage_n_samples_def SAMPLE_RATE_def nukage_duration_def py_int_def)

lemma hum_n_samples_eq: "hum_n_samples = 44100"
  by (simp add: hum_n_samples_def SAMPLE_RATE_def py_int_def)

lemma fade_len_eq: "fade_len = 1102"
  by (simp add: fade_len_def SAMPLE_RATE_def py_int_def)

lemma py_index_in_range: "0 \<le> i \<Longrightarrow> i < int (length xs) \<Longrightarrow> py_index xs i = Inr (nat i)"
  by (simp add: py_index_def)

lemma py_iadd_in_range:
  "0 \<le> i \<Longrightarrow> i < int (length xs) \<Longrightarrow> py_iadd xs i v = Inr (xs[nat i := xs ! nat i + v])"
  by (simp add: py_iadd_def py_get_def py_set_def py_index_in_range)

lemma py_get_in_range: "0 \<le> i \<Longrightarrow> i < int (length xs) \<Longrightarrow> py_get xs i = Inr (xs ! nat i)"
  by (simp add: py_get_def py_index_in_range)

lemma py_set_in_range: "0 \<le> i \<Longrightarrow> i < int (length xs) \<Longrightarrow> py_set xs i v = Inr (xs[nat i := v])"
  by (simp add: py_set_def py_index_in_range)

lemma length_gauss_draws [simp]: "length (fst (gauss_draws ops mu sigma n g)) = n"
  by (induction n arbitrary: g) (simp_all add: split_beta Let_def)

lemma brown_layer_general:
  assumes "distinct is" and "\<forall>i\<in>set is. 0 \<le> i \<and> i < int (length samples)"
  shows "\<exists>samples'. brown_layer ops is g b samples =
            Inr (snd (gauss_draws ops 0 0.02 (length is) g),
                 brown_value b (fst (gauss_draws ops 0 0.02 (length is) g)), samples')
         \<and> length samples' = length samples
         \<and> (\<forall>k<length is. samples' ! nat (is ! k) =
               samples ! nat (is ! k) + brown_value b (take (Suc k) (fst (gauss_draws ops 0 0.02 (length is) g))) * 0.4)
         \<and> (\<forall>j. int j \<notin> set is \<longrightarrow> samples' ! j = samples ! j)"
  using assms
proof (induction "is" arbitrary: g b samples)
  case Nil
  then show ?case by (simp add: brown_value_def)
next
  case (Cons i "is")
  obtain d g1 where dg: "rng_gauss ops 0 0.02 g = (d, g1)" by (cases "rng_gauss ops 0 0.02 g")
  define b1 where "b1 = (b + d) * 0.998"
  define s1 where "s1 = samples[nat i := samples ! nat i + b1 * 0.4]"
  have i: "0 \<le> i" "i < int (length samples)" "i \<notin> set is" using Cons.prems by auto
  have len1: "length s1 = length samples" by (simp add: s1_def)
  have "distinct is" "\<forall>i\<in>set is. 0 \<le> i \<and> i < int (length s1)"
    using Cons.prems by (auto simp: len1)
  from Cons.IH[OF this, of g1 b1] obtain s' where
    run: "brown_layer ops is g1 b1 s1 =
            Inr (snd (gauss_draws ops 0 0.02 (length is) g1),
                 brown_value b1 (fst (gauss_draws ops 0 0.02 (length is) g1)), s')"
    and len: "length s' = length s1"
    and hit: "\<forall>k<length is. s' ! nat (is ! k) =
               s1 ! nat (is ! k) + brown_value b1 (take (Suc k) (fst (gauss_draws ops 0 0.02 (length is) g1))) * 0.4"
    and miss: "\<forall>j. int j \<notin> set is \<longrightarrow> s' ! j = s1 ! j"
    by blast
  obtain ds g2 where dr: "gauss_draws ops 0 0.02 (length is) g1 = (ds, g2)"
    by (cases "gauss_draws ops 0 0.02 (length is) g1")
  have full: "gauss_draws ops 0 0.02 (length (i # is)) g = (d # ds, g2)"
    using dg dr by simp
  have step: "brown_layer ops (i # is) g b samples = brown_layer ops is g1 b1 s1"
    by (simp only: brown_layer.simps dg Let_def prod.case b1_def[symmetric]
          py_iadd_in_range[OF i(1,2)] ebind_simps s1_def[symmetric])
  have bv: "\<And>xs. brown_value b (d # xs) = brown_value b1 xs"
    by (simp add: brown_value_def brown_step_def b1_def)
  have "s' ! nat ((i # is) ! k) =
          samples ! nat ((i # is) ! k) + brown_value b (take (Suc k) (d # ds)) * 0.4"
    if k: "k < length (i # is)" for k
  proof (cases k)
    case 0
    have "int (nat i) \<notin> set is" using i by simp
    then have "s' ! nat i = s1 ! nat i" using miss by blast
    also have "\<dots> = samples ! nat i + b1 * 0.4" using i by (simp add: s1_def)
    finally show ?thesis using 0 by (simp add: brown_value_def brown_step_def b1_def)
  next
    case (Suc k')
    then have k': "k' < length is" using k by simp
    then have "is ! k' \<in> set is" by simp
    then have ne: "nat (is ! k') \<noteq> nat i" using i Cons.prems(2)
      by (metis eq_nat_nat_iff list.set_intros(2))
    have "s' ! nat (is ! k') = s1 ! nat (is ! k') + brown_value b1 (take (Suc k') ds) * 0.4"
      using hit k' dr by simp
    also have "s1 ! nat (is ! k') = samples ! nat (is ! k')"
      using ne by (simp add: s1_def)
    finally show ?thesis using Suc by (simp add: bv)
  qed
  moreover have "s' ! j = samples ! j" if "int j \<notin> set (i # is)" for j
  proof -
    have "int j \<notin> set is" "j \<noteq> nat i" using that i by auto
    then show ?thesis using miss by (simp add: s1_def)
  qed
  ultimately show ?case
    using step run len len1 bv dr by (simp only: full fst_conv snd_conv) simp
qed



lemma crossfade_general:
  assumes "distinct is"
    and "\<forall>i\<in>set is. 0 \<le> i \<and> i < int (length samples)
            \<and> 0 \<le> n - fade_len + i \<and> n - fade_len + i < int (length samples)
            \<and> n - fade_len + i \<notin> set is"
  shows "\<exists>samples'. crossfade n is samples = Inr samples'
         \<and> length samples' = length samples
         \<and> (\<forall>i\<in>set is. samples' ! nat i =
               samples ! nat i * (real_of_int i / real_of_int fade_len)
               + samples ! nat (n - fade_len + i) * (1 - real_of_int i / real_of_int fade_len))
         \<and> (\<forall>j. int j \<notin> set is \<longrightarrow> samples' ! j = samples ! j)"
  using assms
proof (induction "is" arbitrary: samples)
  case Nil
  then show ?case by simp
next
  case (Cons i "is")
  define f where "f = real_of_int i / real_of_int fade_len"
  define hi where "hi = n - fade_len + i"
  define s1 where "s1 = samples[nat i := samples ! nat i * f + samples ! nat hi * (1 - f)]"
  have i: "0 \<le> i" "i < int (length samples)" "0 \<le> hi" "hi < int (length samples)"
    "hi \<noteq> i" "hi \<notin> set is" "i \<notin> set is"
    using Cons.prems by (auto simp: hi_def)
  have len1: "length s1 = length samples" by (simp add: s1_def)
  have step: "crossfade n (i # is) samples = crossfade n is s1"
    by (simp only: crossfade.simps Let_def f_def[symmetric] hi_def[symmetric]
          py_get_in_range[OF i(1,2)] py_get_in_range[OF i(3,4)] py_set_in_range[OF i(1,2)]
          ebind_simps s1_def[symmetric])
  have "distinct is" using Cons.prems by simp
  moreover have "\<forall>i\<in>set is. 0 \<le> i \<and> i < int (length s1)
            \<and> 0 \<le> n - fade_len + i \<and> n - fade_len + i < int (length s1)
            \<and> n - fade_len + i \<notin> set is"
    using Cons.prems(2) by (simp add: len1)
  ultimately obtain s' where
    run: "crossfade n is s1 = Inr s'" and len: "length s' = length s1"
    and hit: "\<forall>i\<in>set is. s' ! nat i =
               s1 ! nat i * (real_of_int i / real_of_int fade_len)
               + s1 ! nat (n - fade_len + i) * (1 - real_of_int i / real_of_int fade_len)"
    and miss: "\<forall>j. int j \<notin> set is \<longrightarrow> s' ! j = s1 ! j"
    using Cons.IH[of s1] by blast
  have "s' ! nat k = samples ! nat k * (real_of_int k / real_of_int fade_len)
               + samples ! nat (n - fade_len + k) * (1 - real_of_int k / real_of_int fade_len)"
    if k: "k \<in> set (i # is)" for k
  proof (cases "k = i")
    case True
    have "int (nat i) \<notin> set is" using i by simp
    then have "s' ! nat i = s1 ! nat i" using miss by blast
    also have "\<dots> = samples ! nat i * f + samples ! nat hi * (1 - f)"
      using i by (simp add: s1_def)
    finally show ?thesis using True by (simp add: f_def hi_def)
  next
    case False
    then have kin: "k \<in> set is" using k by simp
    then have k0: "0 \<le> k" and h0: "0 \<le> n - fade_len + k" and hne: "n - fade_len + k \<noteq> i"
      using Cons.prems(2) by auto
    have "nat k \<noteq> nat i" using False k0 i by simp
    moreover have "nat (n - fade_len + k) \<noteq> nat i" using hne h0 i by simp
    ultimately have "s1 ! nat k = samples ! nat k" "s1 ! nat (n - fade_len + k) = samples ! nat (n - fade_len + k)"
      by (simp_all add: s1_def)
    then show ?thesis using hit kin by simp
  qed
  moreover have "s' ! j = samples ! j" if "int j \<notin> set (i # is)" for j
  proof -
    have "int j \<notin> set is" "j \<noteq> nat i" using that i by auto
    then show ?thesis using miss by (simp add: s1_def)
  qed
  ultimately show ?case using step run len len1 by simp
qed

lemma pop_burst_general:
  assumes "0 \<le> pop_start" and "\<forall>j\<in>set js. 0 \<le> j" and "int (length samples) = n"
  shows "\<exists>samples'. pop_burst n pop_start pop_len pop_freq pop_vol js samples = Inr samples'
         \<and> length samples' = length samples
         \<and> (\<forall>k. int k < pop_start \<longrightarrow> samples' ! k = samples ! k)"
  using assms
proof (induction js arbitrary: samples)
  case Nil
  then show ?case by simp
next
  case (Cons j js)
  define idx where "idx = pop_start + j"
  have idx0: "0 \<le> idx" using Cons.prems by (simp add: idx_def)
  show ?case
  proof (cases "idx < n")
    case True
    define v where "v = sin (2 * pi * pop_freq * real_of_int j / real_of_int SAMPLE_RATE)
                        * sin (pi * real_of_int j / real_of_int pop_len) * pop_vol"
    define s1 where "s1 = samples[nat idx := samples ! nat idx + v]"
    have inr: "idx < int (length samples)" using True Cons.prems by simp
    have step: "pop_burst n pop_start pop_len pop_freq pop_vol (j # js) samples
                  = pop_burst n pop_start pop_len pop_freq pop_vol js s1"
      using True
      by (simp only: pop_burst.simps Let_def idx_def[symmetric] if_True v_def[symmetric]
            py_iadd_in_range[OF idx0 inr] ebind_simps s1_def[symmetric])
    have "int (length s1) = n" using Cons.prems by (simp add: s1_def)
    with Cons.IH[of s1] Cons.prems obtain s' where
      "pop_burst n pop_start pop_len pop_freq pop_vol js s1 = Inr s'"
      "length s' = length s1" "\<forall>k. int k < pop_start \<longrightarrow> s' ! k = s1 ! k"
      by auto
    moreover have "s1 ! k = samples ! k" if "int k < pop_start" for k
    proof -
      have "0 \<le> j" using Cons.prems(2) by simp
      then have "k \<noteq> nat idx" using that idx0 unfolding idx_def by linarith
      then show ?thesis by (simp add: s1_def)
    qed
    ultimately show ?thesis using step by (simp add: s1_def)
  next
    case False
    then have step: "pop_burst n pop_start pop_len pop_freq pop_vol (j # js) samples
                  = pop_burst n pop_start pop_len pop_freq pop_vol js samples"
      by (simp only: pop_burst.simps Let_def idx_def[symmetric] if_False)
    show ?thesis using Cons.IH[of samples] Cons.prems step by auto
  qed
qed


lemma uniform_bounds:
  assumes "uniform_in_range ops" and "a \<le> b" and "rng_uniform ops a b g = (u, g')"
  shows "a \<le> u" and "u \<le> b"
  using assms unfolding uniform_in_range_def by (metis fst_conv)+

lemma py_range_nonneg: "j \<in> set (py_range n) \<Longrightarrow> 0 \<le> j"
  by (simp add: py_range_def)

lemma bubble_pops_general:
  assumes "uniform_in_range ops" and "0 \<le> t" and "int (length samples) = n"
  shows "\<exists>g' samples'. bubble_pops ops n t g samples = Some (Inr (g', samples'))
         \<and> length samples' = length samples
         \<and> (\<forall>k<1764. samples' ! k = samples ! k)"
  using assms(2,3)
proof (induction "nat \<lceil>(nukage_duration - t) / 0.08\<rceil>" arbitrary: t g samples rule: less_induct)
  case less
  show ?case
  proof (cases "t < nukage_duration")
    case False
    then show ?thesis by (subst bubble_pops.simps) simp
  next
    case True
    obtain dt g1 where u1: "rng_uniform ops 0.08 0.3 g = (dt, g1)" by (cases "rng_uniform ops 0.08 0.3 g")
    obtain len g2 where u2: "rng_uniform ops 0.01 0.04 g1 = (len, g2)" by (cases "rng_uniform ops 0.01 0.04 g1")
    obtain pop_freq g3 where u3: "rng_uniform ops 300 800 g2 = (pop_freq, g3)" by (cases "rng_uniform ops 300 800 g2")
    obtain pop_vol g4 where u4: "rng_uniform ops 0.05 0.15 g3 = (pop_vol, g4)" by (cases "rng_uniform ops 0.05 0.15 g3")
    define t1 where "t1 = t + dt"
    define pop_start where "pop_start = py_int (t1 * real_of_int SAMPLE_RATE)"
    define pop_len where "pop_len = py_int (len * real_of_int SAMPLE_RATE)"
    have dt: "0.08 \<le> dt"
      using uniform_bounds(1)[OF assms(1) _ u1] by simp
    have t1: "0.08 \<le> t1" using dt less.prems(1) by (simp add: t1_def)
    have "py_int (0.08 * real_of_int SAMPLE_RATE) \<le> pop_start"
      unfolding pop_start_def using t1 by (intro py_int_mono) (simp add: SAMPLE_RATE_def)
    then have ps: "1764 \<le> pop_start" by (simp add: SAMPLE_RATE_def py_int_def)
    obtain s1 where
      burst: "pop_burst n pop_start pop_len pop_freq pop_vol (py_range pop_len) samples = Inr s1"
      and len1: "length s1 = length samples"
      and keep1: "\<forall>k. int k < pop_start \<longrightarrow> s1 ! k = samples ! k"
      using pop_burst_general[of pop_start "py_range pop_len" samples n pop_len pop_freq pop_vol]
        ps less.prems(2) py_range_nonneg by force
    have step: "bubble_pops ops n t g samples = bubble_pops ops n t1 g4 s1"
      by (subst bubble_pops.simps)
         (simp only: True if_True u1 u2 u3 u4 Let_def prod.case t1_def[symmetric]
            pop_start_def[symmetric] pop_len_def[symmetric] burst sum.case)
    have "(nukage_duration - t1) / 0.08 \<le> (nukage_duration - t) / 0.08 - 1"
      using dt by (simp add: t1_def field_simps)
    then have "\<lceil>(nukage_duration - t1) / 0.08\<rceil> \<le> \<lceil>(nukage_duration - t) / 0.08\<rceil> - 1"
      by (metis ceiling_diff_one ceiling_mono)
    moreover have "0 < \<lceil>(nukage_duration - t) / 0.08\<rceil>"
      using True by simp
    ultimately have dec: "nat \<lceil>(nukage_duration - t1) / 0.08\<rceil> < nat \<lceil>(nukage_duration - t) / 0.08\<rceil>"
      by linarith
    have "0 \<le> t1" using t1 by simp
    moreover have "int (length s1) = n" using len1 less.prems(2) by simp
    ultimately obtain g' s' where
      "bubble_pops ops n t1 g4 s1 = Some (Inr (g', s'))" "length s' = length s1"
      "\<forall>k<1764. s' ! k = s1 ! k"
      using less.hyps[OF dec, of s1 g4] by blast
    moreover have "s1 ! k = samples ! k" if "k < 1764" for k
      using keep1 ps that by (simp add: less_le_trans)
    ultimately show ?thesis using step len1 by simp
  qed
qed



lemma fizz_layer_general:
  assumes "\<forall>i\<in>set is. 0 \<le> i \<and> i < int (length samples)"
  shows "\<exists>samples'. fizz_layer ops is g samples =
            Inr (snd (gauss_draws ops 0 0.03 (length is) g), samples')
         \<and> length samples' = length samples
         \<and> (\<forall>j. int j \<notin> set is \<or> sin (2 * pi * 4000 * real j / real_of_int SAMPLE_RATE) = 0
               \<longrightarrow> samples' ! j = samples ! j)"
  using assms
proof (induction "is" arbitrary: g samples)
  case Nil
  then show ?case by simp
next
  case (Cons i "is")
  obtain d g1 where dg: "rng_gauss ops 0 0.03 g = (d, g1)" by (cases "rng_gauss ops 0 0.03 g")
  define v where "v = d * (sin (2 * pi * 4000 * real_of_int i / real_of_int SAMPLE_RATE) * 0.5)"
  define s1 where "s1 = samples[nat i := samples ! nat i + v]"
  have i: "0 \<le> i" "i < int (length samples)" using Cons.prems by auto
  have len1: "length s1 = length samples" by (simp add: s1_def)
  have step: "fizz_layer ops (i # is) g samples = fizz_layer ops is g1 s1"
    by (simp only: fizz_layer.simps dg Let_def prod.case v_def[symmetric]
          py_iadd_in_range[OF i] ebind_simps s1_def[symmetric])
  have "\<forall>i\<in>set is. 0 \<le> i \<and> i < int (length s1)" using Cons.prems by (simp add: len1)
  from Cons.IH[OF this, of g1] obtain s' where
    run: "fizz_layer ops is g1 s1 = Inr (snd (gauss_draws ops 0 0.03 (length is) g1), s')"
    and len: "length s' = length s1"
    and keep: "\<forall>j. int j \<notin> set is \<or> sin (2 * pi * 4000 * real j / real_of_int SAMPLE_RATE) = 0
               \<longrightarrow> s' ! j = s1 ! j"
    by blast
  have st: "snd (gauss_draws ops 0 0.03 (length (i # is)) g) = snd (gauss_draws ops 0 0.03 (length is) g1)"
    using dg by (simp add: split_beta)
  have "s' ! j = samples ! j"
    if "int j \<notin> set (i # is) \<or> sin (2 * pi * 4000 * real j / real_of_int SAMPLE_RATE) = 0" for j
  proof -
    have a: "s' ! j = s1 ! j" using keep that by auto
    show ?thesis
    proof (cases "j = nat i")
      case True
      then have "int j = i" using i by simp
      then have "sin (2 * pi * 4000 * real_of_int i / real_of_int SAMPLE_RATE) = 0"
        using that by auto
      then have "v = 0" by (simp add: v_def)
      then show ?thesis using a True i by (simp add: s1_def)
    next
      case False
      then show ?thesis using a by (simp add: s1_def)
    qed
  qed
  then show ?case using step run len len1 st by simp
qed

lemma hum_loop_general:
  assumes "distinct is" and "\<forall>i\<in>set is. 0 \<le> i \<and> i < int (length samples)"
  shows "\<exists>samples'. hum_loop ops is g samples =
            Inr (snd (gauss_draws ops 0 0.005 (length is) g), samples')
         \<and> length samples' = length samples
         \<and> (\<forall>k<length is. samples' ! nat (is ! k) =
               hum_tone (is ! k) + fst (gauss_draws ops 0 0.005 (length is) g) ! k)
         \<and> (\<forall>j. int j \<notin> set is \<longrightarrow> samples' ! j = samples ! j)"
  using assms
proof (induction "is" arbitrary: g samples)
  case Nil
  then show ?case by simp
next
  case (Cons i "is")
  obtain d g1 where dg: "rng_gauss ops 0 0.005 g = (d, g1)" by (cases "rng_gauss ops 0 0.005 g")
  define s1 where "s1 = samples[nat i := hum_tone i + d]"
  have i: "0 \<le> i" "i < int (length samples)" "i \<notin> set is" using Cons.prems by auto
  have len1: "length s1 = length samples" by (simp add: s1_def)
  have step: "hum_loop ops (i # is) g samples = hum_loop ops is g1 s1"
    by (simp only: hum_loop.simps dg Let_def prod.case 
          py_set_in_range[OF i(1,2)] ebind_simps s1_def[symmetric])
  have "distinct is" "\<forall>i\<in>set is. 0 \<le> i \<and> i < int (length s1)"
    using Cons.prems by (auto simp: len1)
  from Cons.IH[OF this, of g1] obtain s' where
    run: "hum_loop ops is g1 s1 = Inr (snd (gauss_draws ops 0 0.005 (length is) g1), s')"
    and len: "length s' = length s1"
    and hit: "\<forall>k<length is. s' ! nat (is ! k) =
               hum_tone (is ! k) + fst (gauss_draws ops 0 0.005 (length is) g1) ! k"
    and miss: "\<forall>j. int j \<notin> set is \<longrightarrow> s' ! j = s1 ! j"
    by blast
  obtain ds g2 where dr: "gauss_draws ops 0 0.005 (length is) g1 = (ds, g2)"
    by (cases "gauss_draws ops 0 0.005 (length is) g1")
  have full: "gauss_draws ops 0 0.005 (length (i # is)) g = (d # ds, g2)"
    using dg dr by simp
  have "s' ! nat ((i # is) ! k) = hum_tone ((i # is) ! k) + (d # ds) ! k"
    if k: "k < length (i # is)" for k
  proof (cases k)
    case 0
    have "int (nat i) \<notin> set is" using i by simp
    then have "s' ! nat i = s1 ! nat i" using miss by blast
    also have "\<dots> = hum_tone i + d" using i by (simp add: s1_def)
    finally show ?thesis using 0 by simp
  next
    case (Suc k')
    then have k': "k' < length is" using k by simp
    then show ?thesis using hit dr Suc by simp
  qed
  moreover have "s' ! j = samples ! j" if "int j \<notin> set (i # is)" for j
  proof -
    have "int j \<notin> set is" "j \<noteq> nat i" using that i by auto
    then show ?thesis using miss by (simp add: s1_def)
  qed
  ultimately show ?case
    using step run len len1 dr by (simp only: full fst_conv snd_conv) simp
qed

lemma py_range_set: "set (py_range n) = {0..n - 1}"
  by (simp add: py_range_def)

lemma py_range_distinct: "distinct (py_range n)"
  by (simp add: py_range_def)

lemma py_range_length: "length (py_range n) = nat n"
  by (simp add: py_range_def)

lemma py_range_nth: "k < nat n \<Longrightarrow> py_range n ! k = int k"
  by (simp add: py_range_def)

lemma clamped_bounds: "- 1 \<le> clamped s" "clamped s \<le> 1"
  by (simp_all add: clamped_def)

lemma quantized_bounds:
  "- 32767 \<le> py_int (clamped s * 32767)" "py_int (clamped s * 32767) \<le> 32767"
proof -
  have "py_int (- 32767) \<le> py_int (clamped s * 32767)"
    using clamped_bounds(1)[of s] by (intro py_int_mono) simp
  then show "- 32767 \<le> py_int (clamped s * 32767)" by (simp add: py_int_def)
  have "py_int (clamped s * 32767) \<le> py_int 32767"
    using clamped_bounds(2)[of s] by (intro py_int_mono) simp
  then show "py_int (clamped s * 32767) \<le> 32767" by (simp add: py_int_def)
qed

lemma write_wav_frames:
  "write_wav samples = Inr (map (\<lambda>s. py_int (clamped s * 32767)) samples)"
proof (induction samples)
  case Nil
  then show ?case by simp
next
  case (Cons s samples)
  have "- 32768 \<le> py_int (clamped s * 32767) \<and> py_int (clamped s * 32767) \<le> 32767"
    using quantized_bounds[of s] by linarith
  then show ?case using Cons.IH by (simp add: pack_h_def)
qed

lemma brown_value_Nil: "brown_value b [] = b"
  by (simp add: brown_value_def)

lemma brown_value_snoc: "brown_value b (ds @ [d]) = (brown_value b ds + d) * 0.998"
  by (simp add: brown_value_def brown_step_def)

lemma counter_rng_uniform: "uniform_in_range counter_rng"
proof -
  have "a \<le> a + (b - a) * real (g mod 2) / 2 \<and> a + (b - a) * real (g mod 2) / 2 \<le> b"
    if "a \<le> b" for a b :: real and g :: nat
  proof -
    have "g mod 2 = 0 \<or> g mod 2 = 1" by presburger
    then show ?thesis using that by (auto simp: field_simps)
  qed
  then show ?thesis by (simp add: uniform_in_range_def counter_rng_def)
qed

lemma counter_rng_randint: "randint_in_range counter_rng"
proof -
  have "a \<le> a + int g mod (b - a + 1) \<and> a + int g mod (b - a + 1) \<le> b"
    if "a \<le> b" for a b :: int and g :: nat
    using that pos_mod_bound[of "b - a + 1" "int g"] pos_mod_sign[of "b - a + 1" "int g"] by linarith
  then show ?thesis by (simp add: randint_in_range_def counter_rng_def)
qed

lemma fizz_zero_1323: "sin (2 * pi * 4000 * real 1323 / real_of_int SAMPLE_RATE) = 0"
proof -
  have "2 * pi * 4000 * real 1323 / real_of_int SAMPLE_RATE = real (480::nat) * pi"
    by (simp add: SAMPLE_RATE_def)
  then show ?thesis by (simp only: sin_npi)
qed

lemma nukage_mix_run:
  assumes "uniform_in_range ops"
  shows "\<exists>mix g. nukage_mix ops g0 = Some (Inr (mix, g)) \<and> length mix = 66150
           \<and> mix ! 1323 = brown_value 0 (take 1324 (fst (gauss_draws ops 0 0.02 66150 (rng_seed ops 1234)))) * 0.4"
proof -
  define n where "n = nukage_n_samples"
  define z where "z = replicate (nat n) (0::real)"
  define ds where "ds = fst (gauss_draws ops 0 0.02 66150 (rng_seed ops 1234))"
  have n: "n = 66150" by (simp add: n_def nukage_n_samples_eq)
  have lz: "length z = 66150" by (simp add: z_def n)
  have rng: "\<forall>i\<in>set (py_range n). 0 \<le> i \<and> i < int (length z)"
    by (simp add: py_range_set lz n)
  have ln: "length (py_range n) = 66150" by (simp add: py_range_length n)
  obtain g1 b1 s1 where l1: "brown_layer ops (py_range n) (rng_seed ops 1234) 0 z = Inr (g1, b1, s1)"
    and len1: "length s1 = length z"
    and hit1: "\<forall>k<66150. s1 ! nat (py_range n ! k) =
               z ! nat (py_range n ! k) + brown_value 0 (take (Suc k) ds) * 0.4"
    using brown_layer_general[OF py_range_distinct rng, where ops = ops and g = "rng_seed ops 1234" and b = 0]
    unfolding ln ds_def by blast
  have "py_range n ! 1323 = 1323" using py_range_nth[of 1323 n] by (simp add: n)
  then have v1: "s1 ! 1323 = brown_value 0 (take 1324 ds) * 0.4"
    using hit1[rule_format, of 1323] by (simp add: z_def n)
  obtain g2 s2 where l2: "bubble_pops ops n 0 g1 s1 = Some (Inr (g2, s2))"
    and len2: "length s2 = length s1"
    and keep2: "\<forall>k<1764. s2 ! k = s1 ! k"
    using bubble_pops_general[OF assms, of 0 s1 n g1] len1 lz n by auto
  have "\<forall>i\<in>set (py_range n). 0 \<le> i \<and> i < int (length s2)"
    using rng len1 len2 by simp
  from fizz_layer_general[OF this, where ops = ops and g = g2] obtain g3 s3
    where l3: "fizz_layer ops (py_range n) g2 s2 = Inr (g3, s3)"
    and len3: "length s3 = length s2"
    and keep3: "\<forall>j. int j \<notin> set (py_range n) \<or> sin (2 * pi * 4000 * real j / real_of_int SAMPLE_RATE) = 0
               \<longrightarrow> s3 ! j = s2 ! j"
    by blast
  have "s3 ! 1323 = s2 ! 1323" using keep3 fizz_zero_1323 by blast
  also have "\<dots> = s1 ! 1323" using keep2 by simp
  finally have v3: "s3 ! 1323 = brown_value 0 (take 1324 ds) * 0.4" using v1 by simp
  have "nukage_mix ops g0 = Some (Inr (s3, g3))"
    unfolding nukage_mix_def Let_def n_def[symmetric] z_def[symmetric]
    by (simp add: l1 l2 l3)
  then show ?thesis using v3 len3 len2 len1 lz unfolding ds_def by auto
qed

lemma crossfade_run:
  assumes "length mix = 66150"
  shows "\<exists>out. crossfade nukage_n_samples (py_range fade_len) mix = Inr out \<and> length out = 66150
           \<and> (\<forall>i<1102. out ! i = mix ! i * (real i / real_of_int fade_len)
                          + mix ! (65048 + i) * (1 - real i / real_of_int fade_len))
           \<and> (\<forall>j\<ge>1102. out ! j = mix ! j)"
proof -
  define n where "n = nukage_n_samples"
  have n: "n = 66150" by (simp add: n_def nukage_n_samples_eq)
  have "\<forall>i\<in>set (py_range fade_len). 0 \<le> i \<and> i < int (length mix)
            \<and> 0 \<le> n - fade_len + i \<and> n - fade_len + i < int (length mix)
            \<and> n - fade_len + i \<notin> set (py_range fade_len)"
    by (simp add: py_range_set fade_len_eq n assms)
  from crossfade_general[OF py_range_distinct this] obtain out where
    run: "crossfade n (py_range fade_len) mix = Inr out" and len: "length out = length mix"
    and hit: "\<forall>i\<in>set (py_range fade_len). out ! nat i =
               mix ! nat i * (real_of_int i / real_of_int fade_len)
               + mix ! nat (n - fade_len + i) * (1 - real_of_int i / real_of_int fade_len)"
    and miss: "\<forall>j. int j \<notin> set (py_range fade_len) \<longrightarrow> out ! j = mix ! j"
    by blast
  have "out ! i = mix ! i * (real i / real_of_int fade_len)
                          + mix ! (65048 + i) * (1 - real i / real_of_int fade_len)"
    if "i < 1102" for i
  proof -
    have "int i \<in> set (py_range fade_len)" using that by (simp add: py_range_set fade_len_eq)
    moreover have "nat (n - fade_len + int i) = 65048 + i" by (simp add: n fade_len_eq)
    ultimately show ?thesis using hit[rule_format, of "int i"] by simp
  qed
  moreover have "out ! j = mix ! j" if "1102 \<le> j" for j
    using miss[rule_format, of j] that by (simp add: py_range_set fade_len_eq)
  ultimately have "crossfade nukage_n_samples (py_range fade_len) mix = Inr out \<and> length out = 66150
           \<and> (\<forall>i<1102. out ! i = mix ! i * (real i / real_of_int fade_len)
                          + mix ! (65048 + i) * (1 - real i / real_of_int fade_len))
           \<and> (\<forall>j\<ge>1102. out ! j = mix ! j)"
    using run len assms unfolding n_def by simp
  then show ?thesis by (rule exI)
qed

lemma nukage_layers_run:
  assumes "uniform_in_range ops"
  shows "\<exists>mix out g. nukage_mix ops g0 = Some (Inr (mix, g)) \<and> length mix = 66150
           \<and> mix ! 1323 = brown_value 0 (take 1324 (fst (gauss_draws ops 0 0.02 66150 (rng_seed ops 1234)))) * 0.4
           \<and> crossfade nukage_n_samples (py_range fade_len) mix = Inr out \<and> length out = 66150
           \<and> (\<forall>i<1102. out ! i = mix ! i * (real i / real_of_int fade_len)
                          + mix ! (65048 + i) * (1 - real i / real_of_int fade_len))
           \<and> (\<forall>j\<ge>1102. out ! j = mix ! j)
           \<and> nukage_layers ops g0 = Some (Inr (take 65048 out, g))"
proof -
  obtain mix g where m: "nukage_mix ops g0 = Some (Inr (mix, g))" "length mix = 66150"
    "mix ! 1323 = brown_value 0 (take 1324 (fst (gauss_draws ops 0 0.02 66150 (rng_seed ops 1234)))) * 0.4"
    using nukage_mix_run[OF assms] by blast
  obtain out where c: "crossfade nukage_n_samples (py_range fade_len) mix = Inr out" "length out = 66150"
    "\<forall>i<1102. out ! i = mix ! i * (real i / real_of_int fade_len)
                          + mix ! (65048 + i) * (1 - real i / real_of_int fade_len)"
    "\<forall>j\<ge>1102. out ! j = mix ! j"
    using crossfade_run[OF m(2)] by blast
  have "nukage_layers ops g0 = Some (Inr (take 65048 out, g))"
    using m(1) c(1) by (simp add: nukage_layers_def nukage_n_samples_eq fade_len_eq)
  then show ?thesis using m c by blast
qed

lemma peak_nonempty: "samples \<noteq> [] \<Longrightarrow> peak samples = Inr (Max (set (map abs samples)))"
  by (simp add: peak_def)

lemma peak_nonneg: "peak samples = Inr p \<Longrightarrow> 0 \<le> p"
proof -
  assume a: "peak samples = Inr p"
  then have ne: "samples \<noteq> []" by (auto simp: peak_def split: if_splits)
  then have "p = Max (set (map abs samples))" using a by (simp add: peak_def)
  moreover have "abs (hd samples) \<in> set (map abs samples)" using ne by (cases samples) auto
  ultimately have "abs (hd samples) \<le> p" by simp
  then show ?thesis by linarith
qed

lemma peak_ge: "peak samples = Inr p \<Longrightarrow> s \<in> set samples \<Longrightarrow> \<bar>s\<bar> \<le> p"
  by (auto simp: peak_def split: if_splits)

lemma peak_scaled:
  assumes "peak samples = Inr p" and "0 < p" and "0 \<le> target"
  shows "peak (map (\<lambda>s. s / p * target) samples) = Inr target"
proof -
  have ne: "samples \<noteq> []" using assms(1) by (auto simp: peak_def split: if_splits)
  have p: "p = Max (set (map abs samples))" using assms(1) ne by (simp add: peak_def)
  have fin: "finite (set (map abs samples))" "set (map abs samples) \<noteq> {}" using ne by auto
  have "p \<in> set (map abs samples)" unfolding p using Max_in[OF fin] .
  then obtain s0 where s0: "s0 \<in> set samples" "\<bar>s0\<bar> = p" by auto
  have "Max (set (map abs (map (\<lambda>s. s / p * target) samples))) = target"
  proof (rule Max_eqI)
    show "finite (set (map abs (map (\<lambda>s. s / p * target) samples)))" by simp
    show "y \<le> target" if "y \<in> set (map abs (map (\<lambda>s. s / p * target) samples))" for y
    proof -
      from that obtain s where s: "s \<in> set samples" "y = \<bar>s / p * target\<bar>" by auto
      have "\<bar>s\<bar> \<le> p" using peak_ge[OF assms(1) s(1)] .
      then have "\<bar>s\<bar> / p \<le> 1" using assms(2) by simp
      then have "\<bar>s\<bar> / p * target \<le> 1 * target" using assms(3) by (intro mult_right_mono)
      moreover have "y = \<bar>s\<bar> / p * target" using s(2) assms(2,3) by (simp add: abs_mult)
      ultimately show ?thesis by simp
    qed
    have "\<bar>s0 / p * target\<bar> = target" using s0(2) assms(2,3) by (simp add: abs_mult)
    then show "target \<in> set (map abs (map (\<lambda>s. s / p * target) samples))"
      using s0(1) by force
  qed
  then show ?thesis using ne by (simp add: peak_def)
qed

lemma peak_zero: "peak samples = Inr 0 \<Longrightarrow> s \<in> set samples \<Longrightarrow> s = 0"
  using peak_ge[of samples 0 s] by simp

lemma normalize_run:
  assumes "samples \<noteq> []" and "0 \<le> target"
  shows "\<exists>p buf. peak samples = Inr p \<and> 0 \<le> p \<and> normalize target samples = Inr buf
           \<and> length buf = length samples
           \<and> (p \<noteq> 0 \<longrightarrow> peak buf = Inr target)
           \<and> (p = 0 \<longrightarrow> buf = samples)
           \<and> (\<forall>s\<in>set buf. \<bar>s\<bar> \<le> target)"
proof -
  define p where "p = Max (set (map abs samples))"
  have pk: "peak samples = Inr p" using assms(1) by (simp add: peak_def p_def)
  have p0: "0 \<le> p" using peak_nonneg[OF pk] .
  show ?thesis
  proof (cases "p = 0")
    case True
    then have "normalize target samples = Inr samples" by (simp add: normalize_def pk)
    moreover have "\<forall>s\<in>set samples. \<bar>s\<bar> \<le> target"
      using peak_zero pk True assms(2) by fastforce
    ultimately show ?thesis using pk p0 True by simp
  next
    case False
    then have pos: "0 < p" using p0 by simp
    define buf where "buf = map (\<lambda>s. s / p * target) samples"
    have n: "normalize target samples = Inr buf" using pos by (simp add: normalize_def pk buf_def)
    have pb: "peak buf = Inr target" unfolding buf_def using peak_scaled[OF pk pos assms(2)] .
    have "\<forall>s\<in>set buf. \<bar>s\<bar> \<le> target" using peak_ge[OF pb] by blast
    then show ?thesis using pk p0 n pb False by (simp add: buf_def)
  qed
qed

lemma hum_layers_run:
  "\<exists>pre g. hum_layers ops g0 = Inr (pre, g) \<and> length pre = 44100
      \<and> (\<forall>k<44100. pre ! k = hum_tone (int k) + fst (gauss_draws ops 0 0.005 44100 g0) ! k)"
proof -
  define n where "n = hum_n_samples"
  define z where "z = replicate (nat n) (0::real)"
  have n: "n = 44100" by (simp add: n_def hum_n_samples_eq)
  have lz: "length z = 44100" by (simp add: z_def n)
  have rng: "\<forall>i\<in>set (py_range n). 0 \<le> i \<and> i < int (length z)"
    by (simp add: py_range_set lz n)
  have ln: "length (py_range n) = 44100" by (simp add: py_range_length n)
  obtain g1 s1 where run: "hum_loop ops (py_range n) g0 z = Inr (g1, s1)"
    and len1: "length s1 = length z"
    and hit: "\<forall>k<44100. s1 ! nat (py_range n ! k) =
               hum_tone (py_range n ! k) + fst (gauss_draws ops 0 0.005 44100 g0) ! k"
    using hum_loop_general[OF py_range_distinct rng, where ops = ops and g = g0]
    unfolding ln by blast
  have "s1 ! k = hum_tone (int k) + fst (gauss_draws ops 0 0.005 44100 g0) ! k" if "k < 44100" for k
  proof -
    have "py_range n ! k = int k" using that by (simp add: py_range_nth n)
    then show ?thesis using hit[rule_format, OF that] by simp
  qed
  moreover have "hum_layers ops g0 = Inr (s1, g1)"
    unfolding hum_layers_def Let_def n_def[symmetric] z_def[symmetric] by (simp add: run)
  ultimately show ?thesis using len1 lz by auto
qed

lemma nukage_samples_run:
  assumes "uniform_in_range ops"
  shows "\<exists>pre g p buf. nukage_layers ops g0 = Some (Inr (pre, g)) \<and> length pre = 65048
           \<and> peak pre = Inr p \<and> 0 \<le> p
           \<and> nukage_samples ops g0 = Some (Inr (buf, g)) \<and> length buf = 65048
           \<and> (p \<noteq> 0 \<longrightarrow> peak buf = Inr 0.7) \<and> (p = 0 \<longrightarrow> buf = pre)
           \<and> (\<forall>s\<in>set buf. \<bar>s\<bar> \<le> 0.7)"
proof -
  obtain mix out g where r: "nukage_mix ops g0 = Some (Inr (mix, g)) \<and> length mix = 66150
           \<and> mix ! 1323 = brown_value 0 (take 1324 (fst (gauss_draws ops 0 0.02 66150 (rng_seed ops 1234)))) * 0.4
           \<and> crossfade nukage_n_samples (py_range fade_len) mix = Inr out \<and> length out = 66150
           \<and> (\<forall>i<1102. out ! i = mix ! i * (real i / real_of_int fade_len)
                          + mix ! (65048 + i) * (1 - real i / real_of_int fade_len))
           \<and> (\<forall>j\<ge>1102. out ! j = mix ! j)
           \<and> nukage_layers ops g0 = Some (Inr (take 65048 out, g))"
    using nukage_layers_run[OF assms, where ?g0.0 = g0] by (elim exE)
  have l: "nukage_layers ops g0 = Some (Inr (take 65048 out, g))" "length out = 66150"
    using r by simp_all
  define pre where "pre = take 65048 out"
  have lp: "length pre = 65048" using l(2) by (simp add: pre_def)
  then have ne: "pre \<noteq> []" by auto
  have t7: "(0::real) \<le> 0.7" by simp
  obtain p buf where nb0: "peak pre = Inr p \<and> 0 \<le> p \<and> normalize 0.7 pre = Inr buf
    \<and> length buf = length pre \<and> (p \<noteq> 0 \<longrightarrow> peak buf = Inr 0.7) \<and> (p = 0 \<longrightarrow> buf = pre)
    \<and> (\<forall>s\<in>set buf. \<bar>s\<bar> \<le> 0.7)"
    using normalize_run[OF ne t7] by (elim exE)
  have nb: "peak pre = Inr p" "0 \<le> p" "normalize 0.7 pre = Inr buf"
    "length buf = length pre" "p \<noteq> 0 \<longrightarrow> peak buf = Inr 0.7" "p = 0 \<longrightarrow> buf = pre"
    "\<forall>s\<in>set buf. \<bar>s\<bar> \<le> 0.7"
    using nb0 by simp_all
  have ns: "nukage_samples ops g0 = Some (Inr (buf, g))"
    using nb(3) l(1) by (simp add: nukage_samples_def pre_def)
  have l1: "nukage_layers ops g0 = Some (Inr (pre, g))" using l(1) by (simp add: pre_def)
  have lb: "length buf = 65048" using nb(4) lp by simp
  show ?thesis
    by (intro exI conjI; (fact l1 lp ns nb lb)?)
qed

lemma hum_samples_run:
  "\<exists>pre g p buf. hum_layers ops g0 = Inr (pre, g) \<and> length pre = 44100
           \<and> peak pre = Inr p \<and> 0 \<le> p
           \<and> hum_samples ops g0 = Inr (buf, g) \<and> length buf = 44100
           \<and> (p \<noteq> 0 \<longrightarrow> peak buf = Inr 0.6) \<and> (p = 0 \<longrightarrow> buf = pre)
           \<and> (\<forall>s\<in>set buf. \<bar>s\<bar> \<le> 0.6)"
proof -
  obtain pre g where r: "hum_layers ops g0 = Inr (pre, g) \<and> length pre = 44100
      \<and> (\<forall>k<44100. pre ! k = hum_tone (int k) + fst (gauss_draws ops 0 0.005 44100 g0) ! k)"
    using hum_layers_run[where ops = ops and ?g0.0 = g0] by (elim exE)
  have l: "hum_layers ops g0 = Inr (pre, g)" "length pre = 44100"
    using r by simp_all
  then have ne: "pre \<noteq> []" by auto
  have t6: "(0::real) \<le> 0.6" by simp
  obtain p buf where nb0: "peak pre = Inr p \<and> 0 \<le> p \<and> normalize 0.6 pre = Inr buf
    \<and> length buf = length pre \<and> (p \<noteq> 0 \<longrightarrow> peak buf = Inr 0.6) \<and> (p = 0 \<longrightarrow> buf = pre)
    \<and> (\<forall>s\<in>set buf. \<bar>s\<bar> \<le> 0.6)"
    using normalize_run[OF ne t6] by (elim exE)
  have nb: "peak pre = Inr p" "0 \<le> p" "normalize 0.6 pre = Inr buf"
    "length buf = length pre" "p \<noteq> 0 \<longrightarrow> peak buf = Inr 0.6" "p = 0 \<longrightarrow> buf = pre"
    "\<forall>s\<in>set buf. \<bar>s\<bar> \<le> 0.6"
    using nb0 by simp_all
  have ns: "hum_samples ops g0 = Inr (buf, g)"
    using nb(3) l(1) by (simp add: hum_samples_def)
  have lb: "length buf = 44100" using nb(4) l(2) by simp
  show ?thesis
    by (intro exI conjI; (fact l ns nb lb)?)
qed

lemma clamped_id: "\<bar>s\<bar> \<le> 1 \<Longrightarrow> clamped s = s"
  by (simp add: clamped_def)

lemma map_clamped_id: "\<forall>s\<in>set buf. \<bar>s\<bar> \<le> 1 \<Longrightarrow> map clamped buf = buf"
  by (induction buf) (simp_all add: clamped_id)

lemma write_wav_unclamped:
  "\<forall>s\<in>set buf. \<bar>s\<bar> \<le> 1 \<Longrightarrow> write_wav buf = Inr (map (\<lambda>s. py_int (s * 32767)) buf)"
  by (simp add: write_wav_frames clamped_id)

lemma gen_nukage_sizzle_run:
  assumes "uniform_in_range ops"
  shows "\<exists>buf g. nukage_samples ops g0 = Some (Inr (buf, g)) \<and> length buf = 65048
           \<and> (\<forall>s\<in>set buf. \<bar>s\<bar> \<le> 0.7)
           \<and> gen_nukage_sizzle ops g0 = Some (Inr (map (\<lambda>s. py_int (s * 32767)) buf, g))"
proof -
  obtain pre g p buf where r: "nukage_layers ops g0 = Some (Inr (pre, g)) \<and> length pre = 65048
           \<and> peak pre = Inr p \<and> 0 \<le> p
           \<and> nukage_samples ops g0 = Some (Inr (buf, g)) \<and> length buf = 65048
           \<and> (p \<noteq> 0 \<longrightarrow> peak buf = Inr 0.7) \<and> (p = 0 \<longrightarrow> buf = pre)
           \<and> (\<forall>s\<in>set buf. \<bar>s\<bar> \<le> 0.7)"
    using nukage_samples_run[OF assms, where ?g0.0 = g0] by (elim exE)
  have a: "nukage_samples ops g0 = Some (Inr (buf, g))" "length buf = 65048"
    "\<forall>s\<in>set buf. \<bar>s\<bar> \<le> 0.7"
    using r by simp_all
  have "\<forall>s\<in>set buf. \<bar>s\<bar> \<le> 1" using a(3) by fastforce
  then have w: "write_wav buf = Inr (map (\<lambda>s. py_int (s * 32767)) buf)"
    by (rule write_wav_unclamped)
  have b: "gen_nukage_sizzle ops g0 = Some (Inr (map (\<lambda>s. py_int (s * 32767)) buf, g))"
    using a(1) w by (simp add: gen_nukage_sizzle_def)
  show ?thesis by (intro exI conjI; (fact a b)?)
qed

lemma gen_computer_hum_run:
  "\<exists>buf g. hum_samples ops g0 = Inr (buf, g) \<and> length buf = 44100
           \<and> (\<forall>s\<in>set buf. \<bar>s\<bar> \<le> 0.6)
           \<and> gen_computer_hum ops g0 = Inr (map (\<lambda>s. py_int (s * 32767)) buf, g)"
proof -
  obtain pre g p buf where r: "hum_layers ops g0 = Inr (pre, g) \<and> length pre = 44100
           \<and> peak pre = Inr p \<and> 0 \<le> p
           \<and> hum_samples ops g0 = Inr (buf, g) \<and> length buf = 44100
           \<and> (p \<noteq> 0 \<longrightarrow> peak buf = Inr 0.6) \<and> (p = 0 \<longrightarrow> buf = pre)
           \<and> (\<forall>s\<in>set buf. \<bar>s\<bar> \<le> 0.6)"
    using hum_samples_run[where ops = ops and ?g0.0 = g0] by (elim exE)
  have a: "hum_samples ops g0 = Inr (buf, g)" "length buf = 44100"
    "\<forall>s\<in>set buf. \<bar>s\<bar> \<le> 0.6"
    using r by simp_all
  have "\<forall>s\<in>set buf. \<bar>s\<bar> \<le> 1" using a(3) by fastforce
  then have w: "write_wav buf = Inr (map (\<lambda>s. py_int (s * 32767)) buf)"
    by (rule write_wav_unclamped)
  have b: "gen_computer_hum ops g0 = Inr (map (\<lambda>s. py_int (s * 32767)) buf, g)"
    using a(1) w by (simp add: gen_computer_hum_def)
  show ?thesis by (intro exI conjI; (fact a b)?)
qed

lemma counter_gauss_draws_nth:
  "k < n \<Longrightarrow> fst (gauss_draws counter_rng mu sigma n g) ! k = mu + sigma * real ((g + k) mod 2)"
proof (induction n arbitrary: g k)
  case 0
  then show ?case by simp
next
  case (Suc n)
  show ?case
  proof (cases k)
    case 0
    then show ?thesis by (simp add: split_beta counter_rng_def)
  next
    case (Suc k')
    then have "k' < n" using Suc.prems by simp
    from Suc.IH[OF this, of "Suc g"] show ?thesis
      using Suc by (simp add: split_beta counter_rng_def)
  qed
qed

lemma brown_value_Cons: "brown_value b (d # ds) = brown_value ((b + d) * 0.998) ds"
  by (simp add: brown_value_def brown_step_def)

lemma brown_value_nonneg: "0 \<le> b \<Longrightarrow> \<forall>d\<in>set ds. 0 \<le> d \<Longrightarrow> 0 \<le> brown_value b ds"
proof (induction ds arbitrary: b)
  case Nil
  then show ?case by (simp add: brown_value_Nil)
next
  case (Cons d ds)
  have "0 \<le> (b + d) * 0.998" using Cons.prems by simp
  then show ?case using Cons.IH[of "(b + d) * 0.998"] Cons.prems(2)
    by (simp only: brown_value_Cons) simp
qed

lemma brown_value_pos: "0 < b \<Longrightarrow> \<forall>d\<in>set ds. 0 \<le> d \<Longrightarrow> 0 < brown_value b ds"
proof (induction ds arbitrary: b)
  case Nil
  then show ?case by (simp add: brown_value_Nil)
next
  case (Cons d ds)
  have "0 < (b + d) * 0.998" using Cons.prems by simp
  then show ?case using Cons.IH[of "(b + d) * 0.998"] Cons.prems(2)
    by (simp only: brown_value_Cons) simp
qed

lemma brown_value_pos_draw:
  "0 \<le> b \<Longrightarrow> \<forall>d\<in>set ds. 0 \<le> d \<Longrightarrow> \<exists>d\<in>set ds. 0 < d \<Longrightarrow> 0 < brown_value b ds"
proof (induction ds arbitrary: b)
  case Nil
  then show ?case by simp
next
  case (Cons d ds)
  show ?case
  proof (cases "0 < d")
    case True
    then have "0 < (b + d) * 0.998" using Cons.prems(1) by simp
    then show ?thesis using brown_value_pos[of "(b + d) * 0.998" ds] Cons.prems(2)
      by (simp only: brown_value_Cons) simp
  next
    case False
    then have ex: "\<exists>d\<in>set ds. 0 < d" using Cons.prems(3) by auto
    have "0 \<le> (b + d) * 0.998" using Cons.prems by simp
    then show ?thesis using Cons.IH[of "(b + d) * 0.998"] Cons.prems(2) ex
      by (simp only: brown_value_Cons) simp
  qed
qed

lemma counter_brown_1324:
  "0 < brown_value 0 (take 1324 (fst (gauss_draws counter_rng 0 0.02 66150 (rng_seed counter_rng 1234))))"
proof -
  define ds where "ds = fst (gauss_draws counter_rng 0 0.02 66150 (rng_seed counter_rng 1234))"
  have len: "length ds = 66150" by (simp add: ds_def)
  have nth: "ds ! k = 0.02 * real ((1234 + k) mod 2)" if "k < 66150" for k
    using counter_gauss_draws_nth[OF that, of 0 "0.02" "rng_seed counter_rng 1234"]
    by (simp add: ds_def counter_rng_def)
  have "0 \<le> d" if "d \<in> set (take 1324 ds)" for d
  proof -
    from that obtain k where "k < 1324" "d = ds ! k"
      using len by (auto simp: in_set_conv_nth)
    then show ?thesis using nth[of k] by simp
  qed
  moreover have "ds ! 1 = 0.02" using nth[of 1] by simp
  then have "\<exists>d\<in>set (take 1324 ds). 0 < d"
    using len by (intro bexI[of _ "ds ! 1"]) (auto simp: in_set_conv_nth intro!: exI[of _ 1])
  ultimately have "0 < brown_value 0 (take 1324 ds)"
    by (intro brown_value_pos_draw) auto
  then show ?thesis by (simp add: ds_def)
qed

lemma counter_nukage_peak:
  assumes "nukage_layers counter_rng g0 = Some (Inr (pre, g))" and "peak pre = Inr p"
  shows "p \<noteq> 0"
proof -
  obtain mix out g' where r: "nukage_mix counter_rng g0 = Some (Inr (mix, g')) \<and> length mix = 66150
           \<and> mix ! 1323 = brown_value 0 (take 1324 (fst (gauss_draws counter_rng 0 0.02 66150 (rng_seed counter_rng 1234)))) * 0.4
           \<and> crossfade nukage_n_samples (py_range fade_len) mix = Inr out \<and> length out = 66150
           \<and> (\<forall>i<1102. out ! i = mix ! i * (real i / real_of_int fade_len)
                          + mix ! (65048 + i) * (1 - real i / real_of_int fade_len))
           \<and> (\<forall>j\<ge>1102. out ! j = mix ! j)
           \<and> nukage_layers counter_rng g0 = Some (Inr (take 65048 out, g'))"
    using nukage_layers_run[OF counter_rng_uniform, where ?g0.0 = g0] by (elim exE)
  have pre: "pre = take 65048 out" using r assms(1) by simp
  have "out ! 1323 = mix ! 1323" using r by simp
  then have "0 < out ! 1323" using r counter_brown_1324 by simp
  moreover have "pre ! 1323 = out ! 1323" by (simp add: pre)
  ultimately have pos: "0 < pre ! 1323" by simp
  have "length pre = 65048" using r by (simp add: pre)
  then have "pre ! 1323 \<in> set pre" by simp
  then have "\<bar>pre ! 1323\<bar> \<le> p" by (rule peak_ge[OF assms(2)])
  then show ?thesis using pos by linarith
qed

lemma hum_tone_0: "hum_tone 0 = 0"
  by (simp add: hum_tone_def)

lemma counter_hum_peak:
  assumes "hum_layers counter_rng 1 = Inr (pre, g)" and "peak pre = Inr p"
  shows "p \<noteq> 0"
proof -
  obtain pre' g' where r: "hum_layers counter_rng 1 = Inr (pre', g') \<and> length pre' = 44100
      \<and> (\<forall>k<44100. pre' ! k = hum_tone (int k) + fst (gauss_draws counter_rng 0 0.005 44100 1) ! k)"
    using hum_layers_run[where ops = counter_rng and ?g0.0 = 1] by (elim exE)
  have pre: "pre' = pre" using r assms(1) by simp
  have "fst (gauss_draws counter_rng 0 0.005 44100 1) ! 0 = 0.005"
    using counter_gauss_draws_nth[of 0 44100 0 "0.005" 1] by simp
  moreover have "pre ! 0 = hum_tone (int 0) + fst (gauss_draws counter_rng 0 0.005 44100 1) ! 0"
    using r unfolding pre by simp
  ultimately have v: "pre ! 0 = 0.005" by (simp add: hum_tone_0)
  have "length pre = 44100" using r pre by simp
  then have "pre ! 0 \<in> set pre" by simp
  then have "\<bar>pre ! 0\<bar> \<le> p" by (rule peak_ge[OF assms(2)])
  then show ?thesis using v by simp
qed

lemma paint_simps [simp]:
  "iw (paint img S c) = iw img" "ih (paint img S c) = ih img"
  "px (paint img S c) p = (if in_bounds img p \<and> S p then c else px img p)"
  "in_bounds (paint img S c) p = in_bounds img p"
  by (simp_all add: paint_def in_bounds_def)

lemma new_image_simps [simp]:
  "iw (new_image w h c) = w" "ih (new_image w h c) = h" "px (new_image w h c) p = c"
  by (simp_all add: new_image_def)

lemma fold_invariant:
  assumes "P a" and "\<And>x b. x \<in> set xs \<Longrightarrow> P b \<Longrightarrow> P (f x b)"
  shows "P (fold f xs a)"
  using assms by (induction xs arbitrary: a) simp_all

lemma for_yx_set: "set (for_yx ys xs) = {(x, y). x \<in> set xs \<and> y \<in> set ys}"
  by (auto simp: for_yx_def)

lemma for_xy_set: "set (for_xy xs ys) = {(x, y). x \<in> set xs \<and> y \<in> set ys}"
  by (auto simp: for_xy_def)

lemma for_yx_distinct: "distinct xs \<Longrightarrow> distinct ys \<Longrightarrow> distinct (for_yx ys xs)"
proof (induction ys)
  case Nil
  then show ?case by (simp add: for_yx_def)
next
  case (Cons y ys)
  have "for_yx (y # ys) xs = map (\<lambda>x. (x, y)) xs @ for_yx ys xs" by (simp add: for_yx_def)
  moreover have "distinct (map (\<lambda>x. (x, y)) xs)" using Cons.prems(1) by (simp add: distinct_map inj_on_def)
  moreover have "set (map (\<lambda>x. (x, y)) xs) \<inter> set (for_yx ys xs) = {}"
    using Cons.prems(2) by (auto simp: for_yx_set)
  ultimately show ?case using Cons by simp
qed

lemma for_xy_distinct: "distinct xs \<Longrightarrow> distinct ys \<Longrightarrow> distinct (for_xy xs ys)"
proof (induction xs)
  case Nil
  then show ?case by (simp add: for_xy_def)
next
  case (Cons x xs)
  have "for_xy (x # xs) ys = map (\<lambda>y. (x, y)) ys @ for_xy xs ys" by (simp add: for_xy_def)
  moreover have "distinct (map (\<lambda>y. (x, y)) ys)" using Cons.prems(2) by (simp add: distinct_map inj_on_def)
  moreover have "set (map (\<lambda>y. (x, y)) ys) \<inter> set (for_xy xs ys) = {}"
    using Cons.prems(1) by (auto simp: for_xy_set)
  ultimately show ?case using Cons by simp
qed

lemma py_range2_set: "set (py_range2 a b) = {a..b - 1}"
  by (simp add: py_range2_def)

lemma py_range2_distinct: "distinct (py_range2 a b)"
  by (simp add: py_range2_def)

text \<open>The pixel loop returns when every position visited lies in the image.\<close>

lemma pixel_pass_run:
  assumes "\<forall>p\<in>set ps. in_bounds img p"
  shows "\<exists>img' gs'. pixel_pass step ps img gs = Inr (img', gs')
           \<and> iw img' = iw img \<and> ih img' = ih img
           \<and> (\<forall>p. p \<notin> set ps \<longrightarrow> px img' p = px img p)"
  using assms
proof (induction ps arbitrary: img gs)
  case Nil
  then show ?case by simp
next
  case (Cons p ps)
  obtain c1 gs1 where st: "step p (px img p) gs = (c1, gs1)" by (cases "step p (px img p) gs")
  define img1 where "img1 = img\<lparr> px := (px img)(p := c1) \<rparr>"
  have inb: "in_bounds img p" using Cons.prems by simp
  have step: "pixel_pass step (p # ps) img gs = pixel_pass step ps img1 gs1"
    using inb st by (simp add: getpixel_def putpixel_def img1_def)
  have same: "in_bounds img1 q = in_bounds img q" for q by (simp add: img1_def in_bounds_def)
  then have "\<forall>p\<in>set ps. in_bounds img1 p" using Cons.prems by simp
  from Cons.IH[OF this, of gs1] obtain img' gs' where
    r: "pixel_pass step ps img1 gs1 = Inr (img', gs')" "iw img' = iw img1" "ih img' = ih img1"
       "\<forall>q. q \<notin> set ps \<longrightarrow> px img' q = px img1 q"
    by blast
  have "\<forall>q. q \<notin> set (p # ps) \<longrightarrow> px img' q = px img q"
    using r(4) by (simp add: img1_def)
  then show ?case using step r by (simp add: img1_def)
qed

text \<open>A property of single pixels that every body application keeps, is kept.\<close>

lemma pixel_pass_invariant:
  assumes "pixel_pass step ps img gs = Inr (img', gs')"
    and "\<forall>p. R p (px img p)"
    and "\<forall>p\<in>set ps. \<forall>c s. R p c \<longrightarrow> R p (fst (step p c s))"
  shows "\<forall>p. R p (px img' p)"
  using assms
proof (induction ps arbitrary: img gs)
  case Nil
  then show ?case by simp
next
  case (Cons p ps)
  obtain c1 gs1 where st: "step p (px img p) gs = (c1, gs1)" by (cases "step p (px img p) gs")
  define img1 where "img1 = img\<lparr> px := (px img)(p := c1) \<rparr>"
  have inb: "in_bounds img p"
    using Cons.prems(1) by (auto simp: getpixel_def split: if_splits)
  have step: "pixel_pass step ps img1 gs1 = Inr (img', gs')"
    using Cons.prems(1) inb st by (simp add: getpixel_def putpixel_def img1_def)
  have "R p c1" using Cons.prems(2,3) st by (metis fst_conv list.set_intros(1))
  then have "\<forall>q. R q (px img1 q)" using Cons.prems(2) by (simp add: img1_def)
  moreover have "\<forall>p\<in>set ps. \<forall>c s. R p c \<longrightarrow> R p (fst (step p c s))"
    using Cons.prems(3) by simp
  ultimately show ?case using Cons.IH[OF step] by blast
qed

lemma pixel_pass_outside:
  assumes "pixel_pass step ps img gs = Inr (img', gs')" and "p \<notin> set ps"
  shows "px img' p = px img p"
  using assms
proof (induction ps arbitrary: img gs)
  case Nil
  then show ?case by simp
next
  case (Cons q ps)
  obtain c1 gs1 where st: "step q (px img q) gs = (c1, gs1)" by (cases "step q (px img q) gs")
  have inb: "in_bounds img q"
    using Cons.prems(1) by (auto simp: getpixel_def split: if_splits)
  have "pixel_pass step ps (img\<lparr> px := (px img)(q := c1) \<rparr>) gs1 = Inr (img', gs')"
    using Cons.prems(1) inb st by (simp add: getpixel_def putpixel_def)
  from Cons.IH[OF this] Cons.prems(2) show ?case by simp
qed

text \<open>A position visited once holds what the body made of the colour it had.\<close>

lemma pixel_pass_at:
  assumes "pixel_pass step ps img gs = Inr (img', gs')" and "distinct ps" and "p \<in> set ps"
  shows "\<exists>s. px img' p = fst (step p (px img p) s)"
  using assms
proof (induction ps arbitrary: img gs)
  case Nil
  then show ?case by simp
next
  case (Cons q ps)
  obtain c1 gs1 where st: "step q (px img q) gs = (c1, gs1)" by (cases "step q (px img q) gs")
  define img1 where "img1 = img\<lparr> px := (px img)(q := c1) \<rparr>"
  have inb: "in_bounds img q"
    using Cons.prems(1) by (auto simp: getpixel_def split: if_splits)
  have step: "pixel_pass step ps img1 gs1 = Inr (img', gs')"
    using Cons.prems(1) inb st by (simp add: getpixel_def putpixel_def img1_def)
  show ?case
  proof (cases "p = q")
    case True
    then have "p \<notin> set ps" using Cons.prems(2) by simp
    then have "px img' p = px img1 p" using pixel_pass_outside[OF step] by simp
    then have "px img' p = fst (step p (px img p) gs)" using True st by (simp add: img1_def)
    then show ?thesis by blast
  next
    case False
    then have "p \<in> set ps" using Cons.prems(3) by simp
    moreover have "distinct ps" using Cons.prems(2) by simp
    ultimately obtain s where "px img' p = fst (step p (px img1 p) s)"
      using Cons.IH[OF step] by blast
    then show ?thesis using False by (auto simp: img1_def)
  qed
qed

text \<open>A body whose colour does not depend on the generator's state gives an image that does not.\<close>

lemma pixel_pass_state_free:
  assumes "\<forall>p c s s'. fst (step p c s) = fst (step p c s')"
  shows "map_sum id fst (pixel_pass step ps img gs) = map_sum id fst (pixel_pass step ps img gs')"
proof (induction ps arbitrary: img gs gs')
  case Nil
  then show ?case by simp
next
  case (Cons p ps)
  show ?case
  proof (cases "in_bounds img p")
    case False
    then show ?thesis by (simp add: getpixel_def)
  next
    case True
    obtain c1 gs1 where st: "step p (px img p) gs = (c1, gs1)" by (cases "step p (px img p) gs")
    obtain c2 gs2 where st': "step p (px img p) gs' = (c2, gs2)" by (cases "step p (px img p) gs'")
    have "c1 = c2" using assms st st' by (metis fst_conv)
    then show ?thesis using True st st' Cons.IH[of _ gs1 gs2]
      by (simp add: getpixel_def putpixel_def)
  qed
qed

lemma plain_pil_shapes: "shapes_in_box plain_pil"
  by (auto simp: shapes_in_box_def plain_pil_def plain_ellipse_def)

lemma plain_pil_lines: "lines_in_box plain_pil"
  by (simp add: lines_in_box_def plain_pil_def)

lemma plain_pil_centre: "ellipse_centre_filled plain_pil"
  by (simp add: ellipse_centre_filled_def plain_pil_def plain_ellipse_def in_box_def)


lemma randint_bounds:
  assumes "randint_in_range ops" and "a \<le> b" and "rng_randint ops a b g = (v, g')"
  shows "a \<le> v" and "v \<le> b"
  using assms unfolding randint_in_range_def by (metis fst_conv)+


lemma opaque_on_paint:
  assumes "opaque_on region img" and "\<forall>p. S p \<longrightarrow> region p" and "alpha c = 255"
  shows "opaque_on region (paint img S c)"
  using assms by (auto simp: opaque_on_def)

lemma opaque_on_rectangle:
  assumes "opaque_on region img" and "\<forall>p. in_box bx p \<longrightarrow> region p" and "alpha c = 255"
  shows "opaque_on region (draw_rectangle img bx c)"
  unfolding draw_rectangle_def using assms by (rule opaque_on_paint)

lemma opaque_on_ellipse:
  assumes "shapes_in_box lib" and "opaque_on region img" and "\<forall>p. in_box bx p \<longrightarrow> region p"
    and "alpha c = 255"
  shows "opaque_on region (draw_ellipse lib img bx c)"
  unfolding draw_ellipse_def
  using assms(2) _ assms(4)
proof (rule opaque_on_paint)
  show "\<forall>p. pil_ellipse_fill lib bx p \<longrightarrow> region p"
    using assms(1,3) unfolding shapes_in_box_def by blast
qed

lemma opaque_on_ellipse_outlined:
  assumes "shapes_in_box lib" and "opaque_on region img" and "\<forall>p. in_box bx p \<longrightarrow> region p"
    and "alpha c = 255" and "alpha c' = 255"
  shows "opaque_on region (draw_ellipse_outlined lib img bx c c')"
proof -
  have a: "\<forall>p. pil_ellipse_fill lib bx p \<longrightarrow> region p"
    and b: "\<forall>p. pil_ellipse_outline lib bx p \<longrightarrow> region p"
    using assms(1,3) unfolding shapes_in_box_def by blast+
  show ?thesis unfolding draw_ellipse_outlined_def
    by (intro opaque_on_paint assms a b)
qed

lemma opaque_on_hline:
  assumes "lines_in_box lib" and "opaque_on region img"
    and "\<forall>p. in_box (min x0 x1, min y0 y1, max x0 x1, max y0 y1) p \<longrightarrow> region p" and "alpha c = 255"
  shows "opaque_on region (draw_line lib img (x0, y0) (x1, y1) c 1)"
  unfolding draw_line_def
  using assms(2) _ assms(4)
proof (rule opaque_on_paint)
  show "\<forall>p. pil_line lib (x0, y0) (x1, y1) 1 p \<longrightarrow> region p"
    using assms(1,3) unfolding lines_in_box_def by blast
qed

lemma panel_segments_opaque:
  assumes "randint_in_range ops" and "opaque_on panel_casing img" and "10 \<le> y" and "y \<le> 30"
  shows "opaque_on panel_casing (fst (panel_segments ops y segs img gs))"
  using assms(2)
proof (induction segs arbitrary: img gs)
  case Nil
  then show ?case by simp
next
  case (Cons seg segs)
  obtain a gs1 where r1: "rng_randint ops 0 20 gs = (a, gs1)" by (cases "rng_randint ops 0 20 gs")
  obtain l gs2 where r2: "rng_randint ops 3 10 gs1 = (l, gs2)" by (cases "rng_randint ops 3 10 gs1")
  have a: "0 \<le> a" using randint_bounds(1)[OF assms(1) _ r1] by simp
  define img1 where "img1 = draw_rectangle img (9 + a, y, min 39 (9 + a + l), y + 2) (50, 200, 150, 255)"
  have "opaque_on panel_casing img1"
    unfolding img1_def using Cons.prems
  proof (rule opaque_on_rectangle)
    show "\<forall>p. in_box (9 + a, y, min 39 (9 + a + l), y + 2) p \<longrightarrow> panel_casing p"
      using a assms(3,4) by (auto simp: in_box_def panel_casing_def)
    show "alpha (50, 200, 150, 255) = 255" by (simp add: alpha_def)
  qed
  from Cons.IH[OF this, of gs2] show ?case
    using r1 r2 by (simp add: Let_def img1_def)
qed

lemma panel_rows_opaque:
  assumes "randint_in_range ops" and "opaque_on panel_casing img" and "\<forall>row\<in>set rows. 0 \<le> row \<and> row \<le> 4"
  shows "opaque_on panel_casing (fst (panel_rows ops rows img gs))"
  using assms(2,3)
proof (induction rows arbitrary: img gs)
  case Nil
  then show ?case by simp
next
  case (Cons row rows)
  obtain line_len gs1 where r1: "rng_randint ops 8 28 gs = (line_len, gs1)" by (cases "rng_randint ops 8 28 gs")
  obtain n_seg gs2 where r2: "rng_randint ops 2 5 gs1 = (n_seg, gs2)" by (cases "rng_randint ops 2 5 gs1")
  obtain img1 gs3 where r3: "panel_segments ops (10 + row * 5) (py_range n_seg) img gs2 = (img1, gs3)"
    by (cases "panel_segments ops (10 + row * 5) (py_range n_seg) img gs2")
  have "0 \<le> row" "row \<le> 4" using Cons.prems(2) by simp_all
  then have "10 \<le> 10 + row * 5" "10 + row * 5 \<le> 30" by simp_all
  from panel_segments_opaque[OF assms(1) Cons.prems(1) this, of "py_range n_seg" gs2]
  have "opaque_on panel_casing img1" using r3 by simp
  moreover have "\<forall>row\<in>set rows. 0 \<le> row \<and> row \<le> 4" using Cons.prems(2) by simp
  ultimately have "opaque_on panel_casing (fst (panel_rows ops rows img1 gs3))"
    by (rule Cons.IH)
  then show ?case using r1 r2 r3 by (simp add: Let_def)
qed

lemma py_range3_set: "0 < s \<Longrightarrow> set (py_range3 a b s) \<subseteq> {a..b - 1}"
  by (auto simp: py_range3_def)

lemma computer_panel_opaque_on:
  assumes "shapes_in_box lib" and "lines_in_box lib" and "randint_in_range ops"
  shows "opaque_on panel_casing (fst (gen_computer_panel lib ops g0))"
proof -
  define img1 :: "rgba image" where "img1 = draw_rectangle (new_image 48 48 (0, 0, 0, 0)) (2, 2, 45, 45) (50, 50, 55, 255)"
  define img2 where "img2 = draw_rectangle img1 (3, 3, 44, 44) (60, 60, 65, 255)"
  define img3 where "img3 = draw_rectangle img2 (6, 6, 41, 38) (15, 40, 50, 255)"
  define img4 where "img4 = draw_rectangle img3 (6, 6, 41, 7) (30, 60, 70, 255)"
  define img5 where "img5 = draw_rectangle img4 (6, 6, 7, 38) (25, 55, 65, 255)"
  define img6 where "img6 = fold (\<lambda>y im. draw_line lib im (8, y) (39, y) (20, 55, 65, 255) 1)
                   (py_range3 8 37 2) img5"
  obtain img7 g2 where r: "panel_rows ops (py_range 5) img6 (rng_seed ops 222) = (img7, g2)"
    by (cases "panel_rows ops (py_range 5) img6 (rng_seed ops 222)")
  define img8 where "img8 = draw_rectangle img7 (9, 33, 12, 35) (100, 255, 200, 255)"
  define img9 where "img9 = draw_rectangle img8 (8, 40, 14, 43) (40, 40, 45, 255)"
  define img10 where "img10 = draw_ellipse lib img9 (38, 40, 42, 44) (200, 50, 30, 255)"
  define img11 where "img11 = draw_ellipse lib img10 (33, 40, 37, 44) (30, 200, 60, 255)"
  have gen: "fst (gen_computer_panel lib ops g0) = img11"
    unfolding gen_computer_panel_def Let_def
    using r by (simp add: img1_def img2_def img3_def img4_def img5_def img6_def img8_def img9_def
        img10_def img11_def)
  have o1: "opaque_on panel_casing img1"
    by (auto simp: opaque_on_def img1_def draw_rectangle_def panel_casing_def in_box_def
        in_bounds_def alpha_def)
  have o2: "opaque_on panel_casing img2" unfolding img2_def
    by (rule opaque_on_rectangle[OF o1]) (auto simp: in_box_def panel_casing_def alpha_def)
  have o3: "opaque_on panel_casing img3" unfolding img3_def
    by (rule opaque_on_rectangle[OF o2]) (auto simp: in_box_def panel_casing_def alpha_def)
  have o4: "opaque_on panel_casing img4" unfolding img4_def
    by (rule opaque_on_rectangle[OF o3]) (auto simp: in_box_def panel_casing_def alpha_def)
  have o5: "opaque_on panel_casing img5" unfolding img5_def
    by (rule opaque_on_rectangle[OF o4]) (auto simp: in_box_def panel_casing_def alpha_def)
  have o6: "opaque_on panel_casing img6" unfolding img6_def
  proof (rule fold_invariant[where P = "opaque_on panel_casing", OF o5])
    fix y b assume y: "y \<in> set (py_range3 8 37 2)" and b: "opaque_on panel_casing b"
    have "8 \<le> y" "y \<le> 36" using y py_range3_set[of 2 8 37] by auto
    then show "opaque_on panel_casing (draw_line lib b (8, y) (39, y) (20, 55, 65, 255) 1)"
      by (intro opaque_on_hline[OF assms(2) b]) (auto simp: in_box_def panel_casing_def alpha_def)
  qed
  have "opaque_on panel_casing (fst (panel_rows ops (py_range 5) img6 (rng_seed ops 222)))"
    by (rule panel_rows_opaque[OF assms(3) o6]) (simp add: py_range_set)
  then have o7: "opaque_on panel_casing img7" using r by simp
  have o8: "opaque_on panel_casing img8" unfolding img8_def
    by (rule opaque_on_rectangle[OF o7]) (auto simp: in_box_def panel_casing_def alpha_def)
  have o9: "opaque_on panel_casing img9" unfolding img9_def
    by (rule opaque_on_rectangle[OF o8]) (auto simp: in_box_def panel_casing_def alpha_def)
  have o10: "opaque_on panel_casing img10" unfolding img10_def
    by (rule opaque_on_ellipse[OF assms(1) o9]) (auto simp: in_box_def panel_casing_def alpha_def)
  have o11: "opaque_on panel_casing img11" unfolding img11_def
    by (rule opaque_on_ellipse[OF assms(1) o10]) (auto simp: in_box_def panel_casing_def alpha_def)
  show ?thesis using gen o11 by simp
qed

lemma sized_new [simp]: "sized w h (new_image w h c)"
  by (simp add: sized_def)

lemma sized_draw [simp]:
  "sized w h (paint img S c) = sized w h img"
  "sized w h (draw_rectangle img bx c) = sized w h img"
  "sized w h (draw_ellipse lib img bx c) = sized w h img"
  "sized w h (draw_ellipse_outlined lib img bx c c') = sized w h img"
  "sized w h (draw_line lib img a b c k) = sized w h img"
  "sized w h (draw_polygon_fill lib img pts c) = sized w h img"
  "sized w h (draw_polygon_outline lib img pts c) = sized w h img"
  "sized w h (draw_rectangle_outline lib img bx c k) = sized w h img"
  by (simp_all add: sized_def draw_rectangle_def draw_ellipse_def draw_ellipse_outlined_def
      draw_line_def draw_polygon_fill_def draw_polygon_outline_def draw_rectangle_outline_def)

lemma sized_in_bounds: "sized w h img \<Longrightarrow> in_bounds img p = (0 \<le> fst p \<and> fst p < w \<and> 0 \<le> snd p \<and> snd p < h)"
  by (auto simp: sized_def in_bounds_def)

lemma panel_segments_sized:
  "sized w h img \<Longrightarrow> sized w h (fst (panel_segments ops y segs img gs))"
  by (induction segs arbitrary: img gs) (simp_all add: split_beta Let_def)

lemma panel_rows_sized:
  "sized w h img \<Longrightarrow> sized w h (fst (panel_rows ops rows img gs))"
proof (induction rows arbitrary: img gs)
  case Nil
  then show ?case by simp
next
  case (Cons row rows)
  show ?case
    by (simp add: split_beta Let_def Cons.IH[OF panel_segments_sized[OF Cons.prems]])
qed

lemma computer_panel_sized: "sized 48 48 (fst (gen_computer_panel lib ops g0))"
  unfolding gen_computer_panel_def Let_def
  by (simp add: split_beta panel_rows_sized fold_invariant[where P = "sized 48 48"])

lemma alpha_simp [simp]: "alpha (r, g, b, a) = a"
  by (simp add: alpha_def)

lemma barrel_shade_step_skip:
  "alpha c \<le> 0 \<Longrightarrow> barrel_shade_step l r p c gs = (c, gs)"
  by (cases c) (simp add: barrel_shade_step_def Let_def)

lemma barrel_shade_step_alpha: "alpha (fst (barrel_shade_step l r p c gs)) = alpha c"
  by (cases c) (simp add: barrel_shade_step_def Let_def)

lemma column_shade_step_skip:
  "alpha c \<le> 0 \<Longrightarrow> column_shade_step l r p c gs = (c, gs)"
  by (cases c) (simp add: column_shade_step_def Let_def)

lemma column_shade_step_alpha: "alpha (fst (column_shade_step l r p c gs)) = alpha c"
  by (cases c) (simp add: column_shade_step_def Let_def)

lemma sprite_noise_step_skip:
  "alpha c \<le> 0 \<Longrightarrow> sprite_noise_step ops k p c gs = (c, gs)"
  by (cases c) (simp add: sprite_noise_step_def Let_def)

lemma sprite_noise_step_alpha: "alpha (fst (sprite_noise_step ops k p c gs)) = alpha c"
  by (cases c) (simp add: sprite_noise_step_def Let_def split_beta)

lemma pixel_pass_keeps_transparent:
  assumes "pixel_pass step ps img gs = Inr (img', gs')"
    and "\<forall>p c s. alpha c = 0 \<longrightarrow> fst (step p c s) = c"
  shows "\<forall>p. alpha (px img p) = 0 \<longrightarrow> px img' p = px img p"
proof -
  have "\<forall>p. (alpha (px img p) = 0 \<longrightarrow> px img' p = px img p)"
  proof (rule pixel_pass_invariant[where R = "\<lambda>p c. alpha (px img p) = 0 \<longrightarrow> c = px img p", OF assms(1)])
    show "\<forall>p. alpha (px img p) = 0 \<longrightarrow> px img p = px img p" by simp
    show "\<forall>p\<in>set ps. \<forall>c s. (alpha (px img p) = 0 \<longrightarrow> c = px img p) \<longrightarrow>
            alpha (px img p) = 0 \<longrightarrow> fst (step p c s) = px img p"
    proof (intro ballI allI impI)
      fix p c s assume "alpha (px img p) = 0 \<longrightarrow> c = px img p" and "alpha (px img p) = 0"
      then have "c = px img p" "alpha c = 0" by simp_all
      then show "fst (step p c s) = px img p" using assms(2) by metis
    qed
  qed
  then show ?thesis .
qed

lemma pixel_pass_keeps_alpha:
  assumes "pixel_pass step ps img gs = Inr (img', gs')"
    and "\<forall>p c s. alpha (fst (step p c s)) = alpha c"
  shows "\<forall>p. alpha (px img' p) = alpha (px img p)"
proof (rule pixel_pass_invariant[where R = "\<lambda>p c. alpha c = alpha (px img p)", OF assms(1)])
  show "\<forall>p. alpha (px img p) = alpha (px img p)" by simp
  show "\<forall>p\<in>set ps. \<forall>c s. alpha c = alpha (px img p) \<longrightarrow> alpha (fst (step p c s)) = alpha (px img p)"
    using assms(2) by metis
qed

lemma pixel_pass_sized:
  assumes "pixel_pass step ps img gs = Inr (img', gs')" and "sized w h img"
  shows "sized w h img'"
  using assms
proof (induction ps arbitrary: img gs)
  case Nil
  then show ?case by simp
next
  case (Cons q ps)
  obtain c1 gs1 where st: "step q (px img q) gs = (c1, gs1)" by (cases "step q (px img q) gs")
  have inb: "in_bounds img q"
    using Cons.prems(1) by (auto simp: getpixel_def split: if_splits)
  have "pixel_pass step ps (img\<lparr> px := (px img)(q := c1) \<rparr>) gs1 = Inr (img', gs')"
    using Cons.prems(1) inb st by (simp add: getpixel_def putpixel_def)
  moreover have "sized w h (img\<lparr> px := (px img)(q := c1) \<rparr>)"
    using Cons.prems(2) by (simp add: sized_def)
  ultimately show ?case by (rule Cons.IH)
qed

lemma pixel_pass_returns:
  assumes "sized w h img" and "\<forall>p\<in>set ps. 0 \<le> fst p \<and> fst p < w \<and> 0 \<le> snd p \<and> snd p < h"
  shows "\<exists>img' gs'. pixel_pass step ps img gs = Inr (img', gs')"
proof -
  have "\<forall>p\<in>set ps. in_bounds img p" using assms by (simp add: sized_in_bounds)
  from pixel_pass_run[OF this, of step gs] show ?thesis by blast
qed

lemma shapes_in_boxD:
  assumes "shapes_in_box lib"
  shows "pil_ellipse_fill lib bx p \<Longrightarrow> in_box bx p"
    and "pil_ellipse_outline lib bx p \<Longrightarrow> in_box bx p"
  using assms unfolding shapes_in_box_def by blast+

lemma clear_outside_paint:
  assumes "clear_outside region img" and "\<forall>p. S p \<longrightarrow> region p"
  shows "clear_outside region (paint img S c)"
  using assms by (auto simp: clear_outside_def)

lemma clear_outside_rectangle:
  assumes "clear_outside region img" and "\<forall>p. in_box bx p \<longrightarrow> region p"
  shows "clear_outside region (draw_rectangle img bx c)"
  unfolding draw_rectangle_def using assms by (rule clear_outside_paint)

lemma clear_outside_ellipse:
  assumes "shapes_in_box lib" and "clear_outside region img" and "\<forall>p. in_box bx p \<longrightarrow> region p"
  shows "clear_outside region (draw_ellipse lib img bx c)"
  unfolding draw_ellipse_def using assms(2)
proof (rule clear_outside_paint)
  show "\<forall>p. pil_ellipse_fill lib bx p \<longrightarrow> region p"
    using assms(1,3) unfolding shapes_in_box_def by blast
qed

lemma clear_outside_ellipse_outlined:
  assumes "shapes_in_box lib" and "clear_outside region img" and "\<forall>p. in_box bx p \<longrightarrow> region p"
  shows "clear_outside region (draw_ellipse_outlined lib img bx c c')"
proof -
  have a: "\<forall>p. pil_ellipse_fill lib bx p \<longrightarrow> region p"
    and b: "\<forall>p. pil_ellipse_outline lib bx p \<longrightarrow> region p"
    using assms(1,3) unfolding shapes_in_box_def by blast+
  show ?thesis unfolding draw_ellipse_outlined_def
    by (intro clear_outside_paint assms a b)
qed

lemma clear_outside_pass:
  assumes "pixel_pass step ps img gs = Inr (img', gs')" and "clear_outside region img"
    and "\<forall>p c s. alpha c = 0 \<longrightarrow> fst (step p c s) = c"
  shows "clear_outside region img'"
  using pixel_pass_keeps_transparent[OF assms(1,3)] assms(2)
  by (auto simp: clear_outside_def)

text \<open>The barrel, stage by stage.\<close>

lemma barrel_shaded_run:
  "\<exists>img g. barrel_shaded g0 = Inr (img, g) \<and> sized 32 48 img
     \<and> clear_outside (in_box (4, 3, 27, 44)) img
     \<and> (\<forall>p. alpha (px img p) = alpha (px (draw_rectangle (new_image 32 48 (0, 0, 0, 0)) (4, 6, 27, 44) (90, 75, 55, 255)) p))
     \<and> (\<forall>p. alpha (px (draw_rectangle (new_image 32 48 (0, 0, 0, 0)) (4, 6, 27, 44) (90, 75, 55, 255)) p) = 0
           \<longrightarrow> px img p = px (draw_rectangle (new_image 32 48 (0, 0, 0, 0)) (4, 6, 27, 44) (90, 75, 55, 255)) p)"
proof -
  define body :: "rgba image" where
    "body = draw_rectangle (new_image 32 48 (0, 0, 0, 0)) (4, 6, 27, 44) (90, 75, 55, 255)"
  define ps where "ps = for_xy (py_range2 4 (27 + 1)) (py_range2 6 (44 + 1))"
  have sz: "sized 32 48 body" by (simp add: body_def)
  have "\<forall>p\<in>set ps. 0 \<le> fst p \<and> fst p < 32 \<and> 0 \<le> snd p \<and> snd p < 48"
    by (auto simp: ps_def for_xy_set py_range2_set)
  from pixel_pass_returns[OF sz this, of "barrel_shade_step 4 27" g0] obtain img g where
    run: "pixel_pass (barrel_shade_step 4 27) ps body g0 = Inr (img, g)" by blast
  have bs: "barrel_shaded g0 = Inr (img, g)"
    using run by (simp add: barrel_shaded_def Let_def body_def ps_def)
  have c0: "clear_outside (in_box (4, 3, 27, 44)) body"
    by (auto simp: clear_outside_def body_def draw_rectangle_def in_box_def)
  have skip: "\<forall>p c s. alpha c = 0 \<longrightarrow> fst (barrel_shade_step 4 27 p c (s::'a)) = c"
    by (simp add: barrel_shade_step_skip)
  have c1: "clear_outside (in_box (4, 3, 27, 44)) img"
    by (rule clear_outside_pass[OF run c0 skip])
  have a1: "\<forall>p. alpha (px img p) = alpha (px body p)"
    by (rule pixel_pass_keeps_alpha[OF run]) (simp add: barrel_shade_step_alpha)
  have t1: "\<forall>p. alpha (px body p) = 0 \<longrightarrow> px img p = px body p"
    by (rule pixel_pass_keeps_transparent[OF run skip])
  show ?thesis
    using bs pixel_pass_sized[OF run sz] c1 a1 t1 unfolding body_def by blast
qed

lemma barrel_drawn_run:
  assumes "shapes_in_box lib"
  shows "\<exists>img g. barrel_drawn lib g0 = Inr (img, g) \<and> sized 32 48 img
     \<and> clear_outside (in_box (4, 3, 27, 44)) img
     \<and> (ellipse_centre_filled lib \<longrightarrow> px img (15, 25) = (80, 200, 50, 255))"
proof -
  obtain img g where s: "barrel_shaded g0 = Inr (img, g)" "sized 32 48 img"
    "clear_outside (in_box (4, 3, 27, 44)) img"
    using barrel_shaded_run[of g0] by blast
  define img1 where "img1 = fold (\<lambda>band_y im. draw_rectangle im (4, band_y, 27, band_y + 1)
                                         (70, 65, 55, 255)) [6 + 2, 6 + 10, 44 - 10, 44 - 2] img"
  define img2 where "img2 = draw_rectangle img1 (15 - 6, 25 - 5, 15 + 6, 25 + 5) (40, 140, 30, 255)"
  define img3 where "img3 = draw_rectangle img2 (15 - 4, 25 - 3, 15 + 4, 25 + 3) (60, 180, 40, 255)"
  define img4 where "img4 = draw_ellipse lib img3 (15 - 3, 25 - 3, 15 + 3, 25 + 3) (30, 120, 20, 255)"
  define img5 where "img5 = draw_ellipse lib img4 (15 - 1, 25 - 1, 15 + 1, 25 + 1) (80, 200, 50, 255)"
  define img6 where "img6 = draw_ellipse_outlined lib img5 (4 + 1, 6 - 3, 27 - 1, 6 + 3)
                     (100, 85, 65, 255) (70, 60, 45, 255)"
  have mid: "(6 + 44) div 2 = (25::int)" "(4 + 27) div 2 = (15::int)" by simp_all
  have bd: "barrel_drawn lib g0 = Inr (img6, g)"
    unfolding barrel_drawn_def Let_def mid
    by (simp only: s(1) ebind_simps prod.case img1_def[symmetric] img2_def[symmetric]
        img3_def[symmetric] img4_def[symmetric] img5_def[symmetric] img6_def[symmetric])
  have z1: "sized 32 48 img1" unfolding img1_def using s(2) by simp
  have z5: "sized 32 48 img5" "sized 32 48 img4"
    using z1 by (simp_all add: img5_def img4_def img3_def img2_def)
  have z6: "sized 32 48 img6" using z5 by (simp add: img6_def)
  have c1: "clear_outside (in_box (4, 3, 27, 44)) img1" unfolding img1_def
    using s(3) by (auto intro!: clear_outside_rectangle simp: in_box_def)
  have c2: "clear_outside (in_box (4, 3, 27, 44)) img2" unfolding img2_def
    by (rule clear_outside_rectangle[OF c1]) (auto simp: in_box_def)
  have c3: "clear_outside (in_box (4, 3, 27, 44)) img3" unfolding img3_def
    by (rule clear_outside_rectangle[OF c2]) (auto simp: in_box_def)
  have c4: "clear_outside (in_box (4, 3, 27, 44)) img4" unfolding img4_def
    by (rule clear_outside_ellipse[OF assms c3]) (auto simp: in_box_def)
  have c5: "clear_outside (in_box (4, 3, 27, 44)) img5" unfolding img5_def
    by (rule clear_outside_ellipse[OF assms c4]) (auto simp: in_box_def)
  have c6: "clear_outside (in_box (4, 3, 27, 44)) img6" unfolding img6_def
    by (rule clear_outside_ellipse_outlined[OF assms c5]) (auto simp: in_box_def)
  have centre: "px img6 (15, 25) = (80, 200, 50, 255)" if cf: "ellipse_centre_filled lib"
  proof -
    have "pil_ellipse_fill lib (15 - 1, 25 - 1, 15 + 1, 25 + 1) (15, 25)"
      using cf[unfolded ellipse_centre_filled_def, rule_format, of 1 15 25] by simp
    moreover have "in_bounds img4 (15, 25)" using z5(2) by (simp add: sized_in_bounds)
    ultimately have "px img5 (15, 25) = (80, 200, 50, 255)"
      by (simp add: img5_def draw_ellipse_def)
    moreover have "\<not> in_box (4 + 1, 6 - 3, 27 - 1, 6 + 3) (15, 25)" by (simp add: in_box_def)
    then have "\<not> pil_ellipse_fill lib (4 + 1, 6 - 3, 27 - 1, 6 + 3) (15, 25)"
      "\<not> pil_ellipse_outline lib (4 + 1, 6 - 3, 27 - 1, 6 + 3) (15, 25)"
      using shapes_in_boxD[OF assms] by blast+
    ultimately show ?thesis by (simp add: img6_def draw_ellipse_outlined_def)
  qed
  show ?thesis using bd z6 c6 centre by blast
qed

lemma sprite_noise_skip_all: "\<forall>p c s. alpha c = 0 \<longrightarrow> fst (sprite_noise_step ops k p c (s::'g)) = c"
  by (simp add: sprite_noise_step_skip)

lemma gen_barrel_run:
  assumes "shapes_in_box lib"
  shows "\<exists>drawn g1 final g2. barrel_drawn lib g0 = Inr (drawn, g1)
     \<and> gen_barrel lib ops g0 = Inr (final, g2) \<and> sized 32 48 final
     \<and> (\<forall>q. alpha (px drawn q) = 0 \<longrightarrow> px final q = px drawn q)
     \<and> clear_outside (in_box (4, 3, 27, 44)) final
     \<and> (\<exists>s. px final (15, 25) = fst (sprite_noise_step ops 8 (15, 25) (px drawn (15, 25)) s))
     \<and> (ellipse_centre_filled lib \<longrightarrow> px drawn (15, 25) = (80, 200, 50, 255))"
proof -
  obtain drawn g1 where d: "barrel_drawn lib g0 = Inr (drawn, g1)" "sized 32 48 drawn"
    "clear_outside (in_box (4, 3, 27, 44)) drawn"
    "ellipse_centre_filled lib \<longrightarrow> px drawn (15, 25) = (80, 200, 50, 255)"
    using barrel_drawn_run[OF assms, of g0] by blast
  define ps where "ps = for_yx (py_range 48) (py_range 32)"
  have inb: "\<forall>p\<in>set ps. 0 \<le> fst p \<and> fst p < 32 \<and> 0 \<le> snd p \<and> snd p < 48"
    by (auto simp: ps_def for_yx_set py_range_set)
  from pixel_pass_returns[OF d(2) inb, of "sprite_noise_step ops 8" "rng_seed ops 111"]
  obtain final g2 where
    run: "pixel_pass (sprite_noise_step ops 8) ps drawn (rng_seed ops 111) = Inr (final, g2)" by blast
  have gb: "gen_barrel lib ops g0 = Inr (final, g2)"
    using run by (simp add: gen_barrel_def d(1) Let_def ps_def)
  have t: "\<forall>q. alpha (px drawn q) = 0 \<longrightarrow> px final q = px drawn q"
    by (rule pixel_pass_keeps_transparent[OF run sprite_noise_skip_all])
  have c: "clear_outside (in_box (4, 3, 27, 44)) final"
    by (rule clear_outside_pass[OF run d(3) sprite_noise_skip_all])
  have "distinct ps" unfolding ps_def by (intro for_yx_distinct py_range_distinct)
  moreover have "(15, 25) \<in> set ps" by (simp add: ps_def for_yx_set py_range_set)
  ultimately have at: "\<exists>s. px final (15, 25) = fst (sprite_noise_step ops 8 (15, 25) (px drawn (15, 25)) s)"
    by (rule pixel_pass_at[OF run])
  show ?thesis
    using d(1) gb pixel_pass_sized[OF run d(2)] t c at d(4) by blast
qed

lemma column_stripe_run:
  assumes "sized 24 64 img" and "\<forall>(i, x)\<in>set ps. 0 \<le> x \<and> x < 24 \<and> 0 \<le> i \<and> i < 32"
  shows "\<exists>img'. column_stripe ps img = Inr img' \<and> sized 24 64 img'
           \<and> ((\<forall>p. R (px img p)) \<and> R (180, 150, 30, 255) \<and> R (40, 40, 45, 255) \<longrightarrow> (\<forall>p. R (px img' p)))"
  using assms
proof (induction ps arbitrary: img)
  case Nil
  then show ?case by simp
next
  case (Cons a ps)
  obtain i x where a: "a = (i, x)" by (cases a)
  define c :: rgba where "c = (if (x + i) mod 4 < 2 then (180, 150, 30, 255) else (40, 40, 45, 255))"
  define img1 where "img1 = img\<lparr> px := (px img)((x, 32 + i) := c) \<rparr>"
  have inb: "in_bounds img (x, 32 + i)"
    using Cons.prems by (simp add: a sized_in_bounds)
  have step: "column_stripe (a # ps) img = column_stripe ps img1"
    using inb by (simp add: a putpixel_def img1_def c_def Let_def)
  have "sized 24 64 img1" using Cons.prems(1) by (simp add: sized_def img1_def)
  moreover have "\<forall>(i, x)\<in>set ps. 0 \<le> x \<and> x < 24 \<and> 0 \<le> i \<and> i < 32"
    using Cons.prems(2) by simp
  ultimately obtain img' where r: "column_stripe ps img1 = Inr img'" "sized 24 64 img'"
    "(\<forall>p. R (px img1 p)) \<and> R (180, 150, 30, 255) \<and> R (40, 40, 45, 255) \<longrightarrow> (\<forall>p. R (px img' p))"
    using Cons.IH[of img1] by blast
  have "(\<forall>p. R (px img p)) \<and> R (180, 150, 30, 255) \<and> R (40, 40, 45, 255) \<longrightarrow> (\<forall>p. R (px img1 p))"
    by (simp add: img1_def c_def)
  then show ?case using step r by auto
qed

lemma column_shaded_run:
  "\<exists>img g. column_shaded g0 = Inr (img, g) \<and> sized 24 64 img
     \<and> (\<forall>p. alpha (px (draw_rectangle (new_image 24 64 (0, 0, 0, 0)) (4, 2, 19, 61) (100, 100, 105, 255)) p) = 0
           \<longrightarrow> px img p = px (draw_rectangle (new_image 24 64 (0, 0, 0, 0)) (4, 2, 19, 61) (100, 100, 105, 255)) p)"
proof -
  define body :: "rgba image" where
    "body = draw_rectangle (new_image 24 64 (0, 0, 0, 0)) (4, 2, 19, 61) (100, 100, 105, 255)"
  define ps where "ps = for_yx (py_range2 2 62) (py_range2 4 (19 + 1))"
  have sz: "sized 24 64 body" by (simp add: body_def)
  have "\<forall>p\<in>set ps. 0 \<le> fst p \<and> fst p < 24 \<and> 0 \<le> snd p \<and> snd p < 64"
    by (auto simp: ps_def for_yx_set py_range2_set)
  from pixel_pass_returns[OF sz this, of "column_shade_step 4 19" g0] obtain img g where
    run: "pixel_pass (column_shade_step 4 19) ps body g0 = Inr (img, g)" by blast
  have bs: "column_shaded g0 = Inr (img, g)"
    using run by (simp add: column_shaded_def Let_def body_def ps_def)
  have skip: "\<forall>p c s. alpha c = 0 \<longrightarrow> fst (column_shade_step 4 19 p c (s::'a)) = c"
    by (simp add: column_shade_step_skip)
  have t1: "\<forall>p. alpha (px body p) = 0 \<longrightarrow> px img p = px body p"
    by (rule pixel_pass_keeps_transparent[OF run skip])
  show ?thesis
    using bs pixel_pass_sized[OF run sz] t1 unfolding body_def by blast
qed

lemma column_drawn_run:
  "\<exists>img g. column_drawn lib g0 = Inr (img, g) \<and> sized 24 64 img"
proof -
  obtain img g where s: "column_shaded g0 = Inr (img, g)" "sized 24 64 img"
    using column_shaded_run[of g0] by blast
  define img1 where "img1 = fold (\<lambda>band_y im.
                      draw_line lib
                        (draw_rectangle im (4, band_y, 19, band_y + 2) (75, 75, 80, 255))
                        (4, band_y + 3) (19, band_y + 3) (120, 120, 125, 255) 1)
                     [4, 15, 30, 45, 59] img"
  define img2 where "img2 = draw_rectangle img1 (4 - 2, 0, 19 + 2, 4) (80, 80, 85, 255)"
  define img3 where "img3 = draw_rectangle img2 (4 - 2, 60, 19 + 2, 63) (80, 80, 85, 255)"
  define ps where "ps = concat (map (\<lambda>i. map (\<lambda>x. (i, x)) (py_range2 (4 + 1) 19)) (py_range 4))"
  have z3: "sized 24 64 img3" using s(2) by (simp add: img3_def img2_def img1_def)
  have "\<forall>(i, x)\<in>set ps. 0 \<le> x \<and> x < 24 \<and> 0 \<le> i \<and> i < 32"
    by (auto simp: ps_def py_range2_set py_range_set)
  from column_stripe_run[OF z3 this, of "\<lambda>c. True"] obtain img4 where
    r: "column_stripe ps img3 = Inr img4" "sized 24 64 img4" by blast
  have "column_drawn lib g0 = Inr (img4, g)"
    unfolding column_drawn_def Let_def
    by (simp only: s(1) ebind_simps prod.case img1_def[symmetric] img2_def[symmetric]
        img3_def[symmetric] ps_def[symmetric] r(1))
  then show ?thesis using r(2) by blast
qed

lemma gen_tech_column_run:
  "\<exists>drawn g1 final g2. column_drawn lib g0 = Inr (drawn, g1)
     \<and> gen_tech_column lib ops g0 = Inr (final, g2) \<and> sized 24 64 final
     \<and> (\<forall>q. alpha (px drawn q) = 0 \<longrightarrow> px final q = px drawn q)"
proof -
  obtain drawn g1 where d: "column_drawn lib g0 = Inr (drawn, g1)" "sized 24 64 drawn"
    using column_drawn_run[of lib g0] by blast
  define ps where "ps = for_yx (py_range 64) (py_range 24)"
  have inb: "\<forall>p\<in>set ps. 0 \<le> fst p \<and> fst p < 24 \<and> 0 \<le> snd p \<and> snd p < 64"
    by (auto simp: ps_def for_yx_set py_range_set)
  from pixel_pass_returns[OF d(2) inb, of "sprite_noise_step ops 5" "rng_seed ops 333"]
  obtain final g2 where
    run: "pixel_pass (sprite_noise_step ops 5) ps drawn (rng_seed ops 333) = Inr (final, g2)" by blast
  have gb: "gen_tech_column lib ops g0 = Inr (final, g2)"
    using run by (simp add: gen_tech_column_def d(1) Let_def ps_def)
  have t: "\<forall>q. alpha (px drawn q) = 0 \<longrightarrow> px final q = px drawn q"
    by (rule pixel_pass_keeps_transparent[OF run sprite_noise_skip_all])
  show ?thesis
    using d(1) gb pixel_pass_sized[OF run d(2)] t by blast
qed


















lemma channel_ok_clamp255 [simp]: "channel_ok (clamp255 v)"
  by (simp add: channel_ok_def clamp255_def)

lemma channel_ok_numeral [simp]:
  "channel_ok 0" "channel_ok (numeral n) = (numeral n \<le> (255::int))"
  by (simp_all add: channel_ok_def)

lemma rgb_ok_simp [simp]: "rgb_ok (r, g, b) = (channel_ok r \<and> channel_ok g \<and> channel_ok b)"
  by (simp add: rgb_ok_def)

lemma rgba_ok_simp [simp]:
  "rgba_ok (r, g, b, a) = (channel_ok r \<and> channel_ok g \<and> channel_ok b \<and> channel_ok a)"
  by (simp add: rgba_ok_def)











































text \<open>The barrel around its glow: what the drawing leaves in the lighter green rectangle.\<close>

lemma barrel_drawn_glow_box:
  assumes "shapes_in_box lib" and "in_box (11, 22, 19, 28) p"
  shows "\<exists>drawn g. barrel_drawn lib g0 = Inr (drawn, g)
           \<and> px drawn p = (if pil_ellipse_fill lib (14, 24, 16, 26) p then (80, 200, 50, 255)
                           else if pil_ellipse_fill lib (12, 22, 18, 28) p then (30, 120, 20, 255)
                           else (60, 180, 40, 255))"
proof -
  obtain img g where s: "barrel_shaded g0 = Inr (img, g)" "sized 32 48 img"
    using barrel_shaded_run[of g0] by blast
  define img1 where "img1 = fold (\<lambda>band_y im. draw_rectangle im (4, band_y, 27, band_y + 1)
                                         (70, 65, 55, 255)) [6 + 2, 6 + 10, 44 - 10, 44 - 2] img"
  define img2 where "img2 = draw_rectangle img1 (15 - 6, 25 - 5, 15 + 6, 25 + 5) (40, 140, 30, 255)"
  define img3 where "img3 = draw_rectangle img2 (15 - 4, 25 - 3, 15 + 4, 25 + 3) (60, 180, 40, 255)"
  define img4 where "img4 = draw_ellipse lib img3 (15 - 3, 25 - 3, 15 + 3, 25 + 3) (30, 120, 20, 255)"
  define img5 where "img5 = draw_ellipse lib img4 (15 - 1, 25 - 1, 15 + 1, 25 + 1) (80, 200, 50, 255)"
  define img6 where "img6 = draw_ellipse_outlined lib img5 (4 + 1, 6 - 3, 27 - 1, 6 + 3)
                     (100, 85, 65, 255) (70, 60, 45, 255)"
  have mid: "(6 + 44) div 2 = (25::int)" "(4 + 27) div 2 = (15::int)" by simp_all
  have bd: "barrel_drawn lib g0 = Inr (img6, g)"
    unfolding barrel_drawn_def Let_def mid
    by (simp only: s(1) ebind_simps prod.case img1_def[symmetric] img2_def[symmetric]
        img3_def[symmetric] img4_def[symmetric] img5_def[symmetric] img6_def[symmetric])
  have z1: "sized 32 48 img1" unfolding img1_def using s(2) by simp
  have z2: "sized 32 48 img2" using z1 by (simp add: img2_def)
  have z3: "sized 32 48 img3" using z2 by (simp add: img3_def)
  have z4: "sized 32 48 img4" using z3 by (simp add: img4_def)
  have inb: "0 \<le> fst p \<and> fst p < 32 \<and> 0 \<le> snd p \<and> snd p < 48"
    using assms(2) by (auto simp: in_box_def)
  have b2: "in_bounds img2 p" "in_bounds img3 p" "in_bounds img4 p"
    using inb z2 z3 z4 by (simp_all add: sized_in_bounds)
  have p3: "px img3 p = (60, 180, 40, 255)"
    using assms(2) b2(1) by (simp add: img3_def draw_rectangle_def)
  have p4: "px img4 p = (if pil_ellipse_fill lib (12, 22, 18, 28) p then (30, 120, 20, 255)
                         else (60, 180, 40, 255))"
    using p3 b2(2) by (simp add: img4_def draw_ellipse_def)
  have p5: "px img5 p = (if pil_ellipse_fill lib (14, 24, 16, 26) p then (80, 200, 50, 255)
                         else px img4 p)"
    using b2(3) by (simp add: img5_def draw_ellipse_def)
  have "\<not> in_box (4 + 1, 6 - 3, 27 - 1, 6 + 3) p" using assms(2) by (auto simp: in_box_def)
  then have "\<not> pil_ellipse_fill lib (4 + 1, 6 - 3, 27 - 1, 6 + 3) p"
      "\<not> pil_ellipse_outline lib (4 + 1, 6 - 3, 27 - 1, 6 + 3) p"
    using shapes_in_boxD[OF assms(1)] by blast+
  then have p6: "px img6 p = px img5 p" by (simp add: img6_def draw_ellipse_outlined_def)
  show ?thesis using bd p6 p5 p4 by simp
qed

text \<open>Every pixel of the barrel is the noise body applied to the pixel drawn there.\<close>

lemma gen_barrel_pixel:
  assumes "shapes_in_box lib" and "0 \<le> fst p \<and> fst p < 32 \<and> 0 \<le> snd p \<and> snd p < 48"
  shows "\<exists>drawn g1 final g2 s. barrel_drawn lib g0 = Inr (drawn, g1)
     \<and> gen_barrel lib ops g0 = Inr (final, g2) \<and> sized 32 48 final
     \<and> px final p = fst (sprite_noise_step ops 8 p (px drawn p) s)"
proof -
  obtain drawn g1 where d: "barrel_drawn lib g0 = Inr (drawn, g1)" "sized 32 48 drawn"
    using barrel_drawn_run[OF assms(1), of g0] by blast
  define ps where "ps = for_yx (py_range 48) (py_range 32)"
  have inb: "\<forall>p\<in>set ps. 0 \<le> fst p \<and> fst p < 32 \<and> 0 \<le> snd p \<and> snd p < 48"
    by (auto simp: ps_def for_yx_set py_range_set)
  from pixel_pass_returns[OF d(2) inb, of "sprite_noise_step ops 8" "rng_seed ops 111"]
  obtain final g2 where
    run: "pixel_pass (sprite_noise_step ops 8) ps drawn (rng_seed ops 111) = Inr (final, g2)" by blast
  have gb: "gen_barrel lib ops g0 = Inr (final, g2)"
    using run by (simp add: gen_barrel_def d(1) Let_def ps_def)
  have "distinct ps" unfolding ps_def by (intro for_yx_distinct py_range_distinct)
  moreover have "p \<in> set ps" using assms(2) by (cases p) (simp add: ps_def for_yx_set py_range_set)
  ultimately have at: "\<exists>s. px final p = fst (sprite_noise_step ops 8 p (px drawn p) s)"
    by (rule pixel_pass_at[OF run])
  show ?thesis
    using d(1) gb pixel_pass_sized[OF run d(2)] at by blast
qed

lemma near_glow_noise:
  assumes "randint_in_range ops"
  shows "near_glow (fst (sprite_noise_step ops 8 p (80, 200, 50, 255) s))"
    and "g \<le> 180 \<Longrightarrow> \<not> near_glow (fst (sprite_noise_step ops 8 p (r, g, b, 255) s))"
proof -
  obtain v s' where v: "rng_randint ops (- 8) 8 s = (v, s')" by (cases "rng_randint ops (- 8) 8 s")
  have b: "- 8 \<le> v" "v \<le> 8" using randint_bounds[OF assms _ v] by simp_all
  show "near_glow (fst (sprite_noise_step ops 8 p (80, 200, 50, 255) s))"
    using v b by (simp add: sprite_noise_step_def near_glow_def clamp255_def)
  show "\<not> near_glow (fst (sprite_noise_step ops 8 p (r, g, b, 255) s))" if "g \<le> 180"
    using v b that by (simp add: sprite_noise_step_def near_glow_def clamp255_def)
qed

text \<open>
  In the lighter green rectangle a pixel of the barrel is in the glow band exactly
  where the library's inner ellipse covers it.
\<close>

lemma gen_barrel_glow_box:
  assumes "shapes_in_box lib" and "randint_in_range ops" and "in_box (11, 22, 19, 28) p"
  shows "\<exists>final g. gen_barrel lib ops g0 = Inr (final, g) \<and> sized 32 48 final
           \<and> (near_glow (px final p) \<longleftrightarrow> pil_ellipse_fill lib (14, 24, 16, 26) p)"
proof -
  have inb: "0 \<le> fst p \<and> fst p < 32 \<and> 0 \<le> snd p \<and> snd p < 48"
    using assms(3) by (auto simp: in_box_def)
  obtain drawn g1 final g2 s where r: "barrel_drawn lib g0 = Inr (drawn, g1)"
      "gen_barrel lib ops g0 = Inr (final, g2)" "sized 32 48 final"
      "px final p = fst (sprite_noise_step ops 8 p (px drawn p) s)"
    using gen_barrel_pixel[OF assms(1) inb, of g0 ops] by blast
  have d: "px drawn p = (if pil_ellipse_fill lib (14, 24, 16, 26) p then (80, 200, 50, 255)
                           else if pil_ellipse_fill lib (12, 22, 18, 28) p then (30, 120, 20, 255)
                           else (60, 180, 40, 255))"
    using barrel_drawn_glow_box[OF assms(1,3), of g0] r(1) by simp
  have "near_glow (px final p) \<longleftrightarrow> pil_ellipse_fill lib (14, 24, 16, 26) p"
    unfolding r(4) d using near_glow_noise[OF assms(2)] by simp
  then show ?thesis using r(2,3) by blast
qed

lemma pixel_of_Inr:
  "in_bounds img p \<Longrightarrow> pixel_of (Inr (img, g)) p = Some (px img p)"
  by (simp add: pixel_of_def getpixel_def)

section \<open>The claims\<close>

subsection \<open>C3: the brown-noise recurrence\<close>

text \<open>
  C3 as the specification states it fails: with the counter generator seeded by
  1234 the first two Gaussian draws are 0 and 0.02; the loop leaves the running
  value 0.01996 and the second sample 0.007984, while the claimed recurrence
  \<open>value * 0.998 + draw\<close> gives 0.02 and 0.008.
\<close>

theorem brown_recurrence_counterexample:
  "brown_layer counter_rng [0, 1] (rng_seed counter_rng 1234) 0 [0, 0] = Inr (1236, 0.01996, [0, 0.007984])
   \<and> fst (gauss_draws counter_rng 0 0.02 2 (rng_seed counter_rng 1234)) = [0, 0.02]
   \<and> map (\<lambda>k. foldl brown_step_claimed 0 (take (Suc k) [0, 0.02]) * 0.4) [0..<2] = [0, 0.008]
   \<and> [0, 0.007984] \<noteq> [0, 0.008 :: real]"
  by code_simp

text \<open>
  C3, amended.  In \<^verbatim>\<open>gen_nukage_sizzle\<close> the brown-noise loop over all
  \<open>n_samples\<close> samples of the zeroed buffer returns, and sample \<open>k\<close> holds 0.4
  times the running value after \<open>k + 1\<close> draws of \<open>gauss(0, 0.02)\<close>, where each
  step adds the draw to the previous value and then multiplies the sum by 0.998:
  \<open>value' = (value + draw) * 0.998\<close>.
\<close>

theorem brown_layer_recurrence:
  "(let n = nat nukage_n_samples;
        draws = gauss_draws ops 0 0.02 n (rng_seed ops 1234);
        ds = fst draws
    in brown_layer ops (py_range nukage_n_samples) (rng_seed ops 1234) 0 (replicate n 0) =
         Inr (snd draws, brown_value 0 ds,
              map (\<lambda>k. brown_value 0 (take (Suc k) ds) * 0.4) [0..<n]))
   \<and> brown_value b [] = b
   \<and> brown_value b (xs @ [d]) = (brown_value b xs + d) * 0.998"
proof -
  define n where "n = nat nukage_n_samples"
  define z where "z = replicate n (0::real)"
  define g where "g = rng_seed ops 1234"
  define ds where "ds = fst (gauss_draws ops 0 0.02 n g)"
  have rng: "\<forall>i\<in>set (py_range nukage_n_samples). 0 \<le> i \<and> i < int (length z)"
    by (simp add: py_range_set z_def n_def nukage_n_samples_eq)
  have ln: "length (py_range nukage_n_samples) = n" by (simp add: py_range_length n_def)
  obtain s' where
    run: "brown_layer ops (py_range nukage_n_samples) g 0 z =
            Inr (snd (gauss_draws ops 0 0.02 n g), brown_value 0 ds, s')"
    and len: "length s' = length z"
    and hit: "\<forall>k<n. s' ! nat (py_range nukage_n_samples ! k) =
               z ! nat (py_range nukage_n_samples ! k) + brown_value 0 (take (Suc k) ds) * 0.4"
    using brown_layer_general[OF py_range_distinct rng, where ops = ops and g = g and b = 0]
    unfolding ln ds_def by blast
  have "s' = map (\<lambda>k. brown_value 0 (take (Suc k) ds) * 0.4) [0..<n]"
  proof (rule nth_equalityI)
    show "length s' = length (map (\<lambda>k. brown_value 0 (take (Suc k) ds) * 0.4) [0..<n])"
      by (simp add: len z_def)
    fix k assume "k < length s'"
    then have k: "k < n" by (simp add: len z_def)
    then have "py_range nukage_n_samples ! k = int k" by (simp add: py_range_nth n_def)
    then show "s' ! k = map (\<lambda>k. brown_value 0 (take (Suc k) ds) * 0.4) [0..<n] ! k"
      using hit[rule_format, OF k] k by (simp add: z_def)
  qed
  then show ?thesis
    using run unfolding Let_def n_def[symmetric] g_def[symmetric] z_def[symmetric] ds_def[symmetric]
    by (simp add: brown_value_Nil brown_value_snoc)
qed

subsection \<open>C6: crossfade and trim\<close>

text \<open>
  C6.  With \<open>uniform\<close> in its documented range \<^verbatim>\<open>gen_nukage_sizzle\<close> returns.
  For the buffer \<open>mix\<close> of the three layers and every \<open>i < fade_len\<close>
  (\<open>fade_len = int(0.05 * 22050)\<close>) the crossfade leaves
  \<open>out[i] = mix[i] * f + mix[N - fade_len + i] * (1 - f)\<close> with \<open>f = i / fade_len\<close>;
  the trailing window is cut, and the trimmed buffer and the frames written have
  exactly \<open>int(22050 * 3.0) - fade_len\<close> entries.
\<close>

theorem nukage_crossfade_trim:
  assumes "uniform_in_range ops"
  shows "\<exists>mix out g frames.
      nukage_mix ops g0 = Some (Inr (mix, g))
    \<and> crossfade nukage_n_samples (py_range fade_len) mix = Inr out
    \<and> (\<forall>i<nat fade_len. out ! i =
          mix ! i * (real i / real_of_int fade_len)
          + mix ! (nat (nukage_n_samples - fade_len) + i) * (1 - real i / real_of_int fade_len))
    \<and> nukage_layers ops g0 = Some (Inr (take (nat (nukage_n_samples - fade_len)) out, g))
    \<and> fade_len = py_int (0.05 * 22050) \<and> nukage_n_samples = py_int (22050 * 3.0)
    \<and> int (length (take (nat (nukage_n_samples - fade_len)) out)) = nukage_n_samples - fade_len
    \<and> gen_nukage_sizzle ops g0 = Some (Inr (frames, g))
    \<and> int (length frames) = nukage_n_samples - fade_len"
proof -
  obtain mix out g where r: "nukage_mix ops g0 = Some (Inr (mix, g)) \<and> length mix = 66150
           \<and> mix ! 1323 = brown_value 0 (take 1324 (fst (gauss_draws ops 0 0.02 66150 (rng_seed ops 1234)))) * 0.4
           \<and> crossfade nukage_n_samples (py_range fade_len) mix = Inr out \<and> length out = 66150
           \<and> (\<forall>i<1102. out ! i = mix ! i * (real i / real_of_int fade_len)
                          + mix ! (65048 + i) * (1 - real i / real_of_int fade_len))
           \<and> (\<forall>j\<ge>1102. out ! j = mix ! j)
           \<and> nukage_layers ops g0 = Some (Inr (take 65048 out, g))"
    using nukage_layers_run[OF assms, where ?g0.0 = g0] by (elim exE)
  obtain buf g' where s: "nukage_samples ops g0 = Some (Inr (buf, g')) \<and> length buf = 65048
           \<and> (\<forall>s\<in>set buf. \<bar>s\<bar> \<le> 0.7)
           \<and> gen_nukage_sizzle ops g0 = Some (Inr (map (\<lambda>s. py_int (s * 32767)) buf, g'))"
    using gen_nukage_sizzle_run[OF assms, where ?g0.0 = g0] by (elim exE)
  define frames where "frames = map (\<lambda>s. py_int (s * 32767)) buf"
  have k: "nat (nukage_n_samples - fade_len) = 65048" "nat fade_len = 1102"
    by (simp_all add: nukage_n_samples_eq fade_len_eq)
  have nl: "nukage_layers ops g0 = Some (Inr (take 65048 out, g))" using r by simp
  have "nukage_samples ops g0 = Some (Inr (buf, g'))" using s by simp
  then have "g' = g" using nl by (auto simp: nukage_samples_def ebind_eq_Inr)
  then have f: "gen_nukage_sizzle ops g0 = Some (Inr (frames, g))"
    using s by (simp add: frames_def)
  have lf: "int (length frames) = nukage_n_samples - fade_len"
    using s by (simp add: frames_def nukage_n_samples_eq fade_len_eq)
  have c1: "nukage_mix ops g0 = Some (Inr (mix, g))"
    and c2: "crossfade nukage_n_samples (py_range fade_len) mix = Inr out"
    and c3: "\<forall>i<nat fade_len. out ! i =
          mix ! i * (real i / real_of_int fade_len)
          + mix ! (nat (nukage_n_samples - fade_len) + i) * (1 - real i / real_of_int fade_len)"
    and c4: "nukage_layers ops g0 = Some (Inr (take (nat (nukage_n_samples - fade_len)) out, g))"
    and c7: "int (length (take (nat (nukage_n_samples - fade_len)) out)) = nukage_n_samples - fade_len"
    using r unfolding k by (simp_all add: nukage_n_samples_eq fade_len_eq)
  have c5: "fade_len = py_int (0.05 * 22050)" by (simp add: fade_len_def SAMPLE_RATE_def)
  have c6: "nukage_n_samples = py_int (22050 * 3.0)"
    by (simp add: nukage_n_samples_def SAMPLE_RATE_def nukage_duration_def)
  show ?thesis by (intro exI conjI; (fact c1 c2 c3 c4 c5 c6 c7 f lf)?)
qed

text \<open>The counter generator meets the hypothesis; the file then has 65048 frames.\<close>

theorem nukage_crossfade_trim_witness:
  "uniform_in_range counter_rng
   \<and> (\<exists>frames g. gen_nukage_sizzle counter_rng 0 = Some (Inr (frames, g)) \<and> length frames = 65048)"
proof -
  obtain mix out g frames where r: "nukage_mix counter_rng 0 = Some (Inr (mix, g))
    \<and> crossfade nukage_n_samples (py_range fade_len) mix = Inr out
    \<and> (\<forall>i<nat fade_len. out ! i =
          mix ! i * (real i / real_of_int fade_len)
          + mix ! (nat (nukage_n_samples - fade_len) + i) * (1 - real i / real_of_int fade_len))
    \<and> nukage_layers counter_rng 0 = Some (Inr (take (nat (nukage_n_samples - fade_len)) out, g))
    \<and> fade_len = py_int (0.05 * 22050) \<and> nukage_n_samples = py_int (22050 * 3.0)
    \<and> int (length (take (nat (nukage_n_samples - fade_len)) out)) = nukage_n_samples - fade_len
    \<and> gen_nukage_sizzle counter_rng 0 = Some (Inr (frames, g))
    \<and> int (length frames) = nukage_n_samples - fade_len"
    using nukage_crossfade_trim[OF counter_rng_uniform, where ?g0.0 = 0] by (elim exE)
  then have "gen_nukage_sizzle counter_rng 0 = Some (Inr (frames, g))" "length frames = 65048"
    by (simp_all add: nukage_n_samples_eq fade_len_eq)
  then show ?thesis using counter_rng_uniform by blast
qed

subsection \<open>C7: the normalised peak\<close>

text \<open>
  C7.  For each audio generator (with \<open>uniform\<close> in range, so that
  \<^verbatim>\<open>gen_nukage_sizzle\<close> returns): the buffer before normalisation has a peak
  \<open>p\<close>; if \<open>p\<close> is not 0 the largest absolute value of the normalised buffer is
  exactly the target, 0.7 for \<^verbatim>\<open>gen_nukage_sizzle\<close> and 0.6 for
  \<^verbatim>\<open>gen_computer_hum\<close>, in exact arithmetic; if \<open>p\<close> is 0 the buffer is passed on
  unchanged.
\<close>

theorem normalization_peak:
  assumes "uniform_in_range ops"
  shows "(\<exists>pre g p buf. nukage_layers ops g0 = Some (Inr (pre, g)) \<and> peak pre = Inr p
            \<and> nukage_samples ops g0 = Some (Inr (buf, g))
            \<and> (p \<noteq> 0 \<longrightarrow> peak buf = Inr 0.7) \<and> (p = 0 \<longrightarrow> buf = pre))
       \<and> (\<exists>pre g p buf. hum_layers ops g1 = Inr (pre, g) \<and> peak pre = Inr p
            \<and> hum_samples ops g1 = Inr (buf, g)
            \<and> (p \<noteq> 0 \<longrightarrow> peak buf = Inr 0.6) \<and> (p = 0 \<longrightarrow> buf = pre))"
proof (rule conjI)
  obtain pre g p buf where r: "nukage_layers ops g0 = Some (Inr (pre, g)) \<and> length pre = 65048
           \<and> peak pre = Inr p \<and> 0 \<le> p
           \<and> nukage_samples ops g0 = Some (Inr (buf, g)) \<and> length buf = 65048
           \<and> (p \<noteq> 0 \<longrightarrow> peak buf = Inr 0.7) \<and> (p = 0 \<longrightarrow> buf = pre)
           \<and> (\<forall>s\<in>set buf. \<bar>s\<bar> \<le> 0.7)"
    using nukage_samples_run[OF assms, where ?g0.0 = g0] by (elim exE)
  have a: "nukage_layers ops g0 = Some (Inr (pre, g))" "peak pre = Inr p"
    "nukage_samples ops g0 = Some (Inr (buf, g))"
    "p \<noteq> 0 \<longrightarrow> peak buf = Inr 0.7" "p = 0 \<longrightarrow> buf = pre"
    using r by simp_all
  show "\<exists>pre g p buf. nukage_layers ops g0 = Some (Inr (pre, g)) \<and> peak pre = Inr p
            \<and> nukage_samples ops g0 = Some (Inr (buf, g))
            \<and> (p \<noteq> 0 \<longrightarrow> peak buf = Inr 0.7) \<and> (p = 0 \<longrightarrow> buf = pre)"
    by (intro exI conjI; (fact a)?)
next
  obtain pre g p buf where r: "hum_layers ops g1 = Inr (pre, g) \<and> length pre = 44100
           \<and> peak pre = Inr p \<and> 0 \<le> p
           \<and> hum_samples ops g1 = Inr (buf, g) \<and> length buf = 44100
           \<and> (p \<noteq> 0 \<longrightarrow> peak buf = Inr 0.6) \<and> (p = 0 \<longrightarrow> buf = pre)
           \<and> (\<forall>s\<in>set buf. \<bar>s\<bar> \<le> 0.6)"
    using hum_samples_run[where ops = ops and ?g0.0 = g1] by (elim exE)
  have a: "hum_layers ops g1 = Inr (pre, g)" "peak pre = Inr p"
    "hum_samples ops g1 = Inr (buf, g)"
    "p \<noteq> 0 \<longrightarrow> peak buf = Inr 0.6" "p = 0 \<longrightarrow> buf = pre"
    using r by simp_all
  show "\<exists>pre g p buf. hum_layers ops g1 = Inr (pre, g) \<and> peak pre = Inr p
            \<and> hum_samples ops g1 = Inr (buf, g)
            \<and> (p \<noteq> 0 \<longrightarrow> peak buf = Inr 0.6) \<and> (p = 0 \<longrightarrow> buf = pre)"
    by (intro exI conjI; (fact a)?)
qed

text \<open>
  With the counter generator both peaks are non-zero, so both buffers reach
  their targets.
\<close>

theorem normalization_peak_witness:
  "uniform_in_range counter_rng
   \<and> (\<exists>buf g. nukage_samples counter_rng 0 = Some (Inr (buf, g)) \<and> peak buf = Inr 0.7)
   \<and> (\<exists>buf g. hum_samples counter_rng 1 = Inr (buf, g) \<and> peak buf = Inr 0.6)"
proof -
  note t = normalization_peak[OF counter_rng_uniform, where ?g0.0 = 0 and ?g1.0 = 1]
  obtain pre g p buf where r: "nukage_layers counter_rng 0 = Some (Inr (pre, g)) \<and> peak pre = Inr p
            \<and> nukage_samples counter_rng 0 = Some (Inr (buf, g))
            \<and> (p \<noteq> 0 \<longrightarrow> peak buf = Inr 0.7) \<and> (p = 0 \<longrightarrow> buf = pre)"
    using t[THEN conjunct1] by (elim exE)
  have "p \<noteq> 0" using counter_nukage_peak[of 0 pre g p] r by simp
  then have n: "nukage_samples counter_rng 0 = Some (Inr (buf, g)) \<and> peak buf = Inr 0.7"
    using r by simp
  obtain pre' g' p' buf' where r': "hum_layers counter_rng 1 = Inr (pre', g') \<and> peak pre' = Inr p'
            \<and> hum_samples counter_rng 1 = Inr (buf', g')
            \<and> (p' \<noteq> 0 \<longrightarrow> peak buf' = Inr 0.6) \<and> (p' = 0 \<longrightarrow> buf' = pre')"
    using t[THEN conjunct2] by (elim exE)
  have "p' \<noteq> 0" using counter_hum_peak[of pre' g' p'] r' by simp
  then have h: "hum_samples counter_rng 1 = Inr (buf', g') \<and> peak buf' = Inr 0.6"
    using r' by simp
  show ?thesis using counter_rng_uniform n h by blast
qed

subsection \<open>C10: the clamp of \<^verbatim>\<open>write_wav\<close> is idle for both generators\<close>

text \<open>
  C10.  The buffer each audio generator hands to \<^verbatim>\<open>write_wav\<close> has every sample
  within the target peak (0.7, 0.6), hence within \<open>[-1, 1]\<close>: clamping leaves the
  buffer as it is, and the frames written are the unclamped quantisation.
\<close>

theorem write_wav_clamp_idle:
  assumes "uniform_in_range ops"
  shows "(\<exists>buf g. nukage_samples ops g0 = Some (Inr (buf, g))
            \<and> list_all (\<lambda>s. - 0.7 \<le> s \<and> s \<le> 0.7) buf \<and> map clamped buf = buf
            \<and> gen_nukage_sizzle ops g0 = Some (Inr (map (\<lambda>s. py_int (s * 32767)) buf, g)))
       \<and> (\<exists>buf g. hum_samples ops g1 = Inr (buf, g)
            \<and> list_all (\<lambda>s. - 0.6 \<le> s \<and> s \<le> 0.6) buf \<and> map clamped buf = buf
            \<and> gen_computer_hum ops g1 = Inr (map (\<lambda>s. py_int (s * 32767)) buf, g))"
proof (rule conjI)
  obtain buf g where r: "nukage_samples ops g0 = Some (Inr (buf, g)) \<and> length buf = 65048
           \<and> (\<forall>s\<in>set buf. \<bar>s\<bar> \<le> 0.7)
           \<and> gen_nukage_sizzle ops g0 = Some (Inr (map (\<lambda>s. py_int (s * 32767)) buf, g))"
    using gen_nukage_sizzle_run[OF assms, where ?g0.0 = g0] by (elim exE)
  have b: "\<forall>s\<in>set buf. \<bar>s\<bar> \<le> 0.7" using r by simp
  have a1: "nukage_samples ops g0 = Some (Inr (buf, g))"
    and a4: "gen_nukage_sizzle ops g0 = Some (Inr (map (\<lambda>s. py_int (s * 32767)) buf, g))"
    using r by simp_all
  have a2: "list_all (\<lambda>s. - 0.7 \<le> s \<and> s \<le> 0.7) buf"
    unfolding list_all_iff using b by (auto simp: abs_le_iff)
  have "\<forall>s\<in>set buf. \<bar>s\<bar> \<le> 1" using b by fastforce
  then have a3: "map clamped buf = buf" by (rule map_clamped_id)
  show "\<exists>buf g. nukage_samples ops g0 = Some (Inr (buf, g))
            \<and> list_all (\<lambda>s. - 0.7 \<le> s \<and> s \<le> 0.7) buf \<and> map clamped buf = buf
            \<and> gen_nukage_sizzle ops g0 = Some (Inr (map (\<lambda>s. py_int (s * 32767)) buf, g))"
    by (intro exI conjI; (fact a1 a2 a3 a4)?)
next
  obtain buf g where r: "hum_samples ops g1 = Inr (buf, g) \<and> length buf = 44100
           \<and> (\<forall>s\<in>set buf. \<bar>s\<bar> \<le> 0.6)
           \<and> gen_computer_hum ops g1 = Inr (map (\<lambda>s. py_int (s * 32767)) buf, g)"
    using gen_computer_hum_run[where ops = ops and ?g0.0 = g1] by (elim exE)
  have b: "\<forall>s\<in>set buf. \<bar>s\<bar> \<le> 0.6" using r by simp
  have a1: "hum_samples ops g1 = Inr (buf, g)"
    and a4: "gen_computer_hum ops g1 = Inr (map (\<lambda>s. py_int (s * 32767)) buf, g)"
    using r by simp_all
  have a2: "list_all (\<lambda>s. - 0.6 \<le> s \<and> s \<le> 0.6) buf"
    unfolding list_all_iff using b by (auto simp: abs_le_iff)
  have "\<forall>s\<in>set buf. \<bar>s\<bar> \<le> 1" using b by fastforce
  then have a3: "map clamped buf = buf" by (rule map_clamped_id)
  show "\<exists>buf g. hum_samples ops g1 = Inr (buf, g)
            \<and> list_all (\<lambda>s. - 0.6 \<le> s \<and> s \<le> 0.6) buf \<and> map clamped buf = buf
            \<and> gen_computer_hum ops g1 = Inr (map (\<lambda>s. py_int (s * 32767)) buf, g)"
    by (intro exI conjI; (fact a1 a2 a3 a4)?)
qed

text \<open>The same on the counter generator.\<close>

theorem write_wav_clamp_idle_witness:
  "uniform_in_range counter_rng
   \<and> (\<exists>buf g. nukage_samples counter_rng 0 = Some (Inr (buf, g)) \<and> map clamped buf = buf)
   \<and> (\<exists>buf g. hum_samples counter_rng 1 = Inr (buf, g) \<and> map clamped buf = buf)"
proof -
  note t = write_wav_clamp_idle[OF counter_rng_uniform, where ?g0.0 = 0 and ?g1.0 = 1]
  have "\<exists>buf g. nukage_samples counter_rng 0 = Some (Inr (buf, g)) \<and> map clamped buf = buf"
    using t[THEN conjunct1] by blast
  moreover have "\<exists>buf g. hum_samples counter_rng 1 = Inr (buf, g) \<and> map clamped buf = buf"
    using t[THEN conjunct2] by blast
  ultimately show ?thesis using counter_rng_uniform by blast
qed

subsection \<open>C4: opacity of the computer panel\<close>

text \<open>
  C4 as stated fails: the canvas starts transparent and nothing is drawn outside
  the casing rectangle, so the corner pixel \<open>(0, 0)\<close> of the output lies in the
  image and has alpha 0.
\<close>

theorem computer_panel_opaque_counterexample:
  "in_bounds (fst (gen_computer_panel plain_pil counter_rng 0)) (0, 0)
   \<and> alpha (px (fst (gen_computer_panel plain_pil counter_rng 0)) (0, 0)) = 0"
  using computer_panel_opaque_on[OF plain_pil_shapes plain_pil_lines counter_rng_randint, of 0]
    computer_panel_sized[of plain_pil counter_rng 0]
  by (simp add: opaque_on_def panel_casing_def in_box_def sized_in_bounds)

text \<open>
  C4, amended.  The output of \<^verbatim>\<open>gen_computer_panel\<close> is 48 by 48 and has no
  noise pass; every pixel of the casing rectangle \<open>2 \<le> x, y \<le> 45\<close> has alpha
  255, and every pixel outside it (the two-pixel margin) has alpha 0.  The
  library is assumed to keep ellipses and one-pixel lines inside their bounding
  boxes, and \<open>randint\<close> to stay in its range.
\<close>

theorem computer_panel_alpha:
  assumes "shapes_in_box lib" and "lines_in_box lib" and "randint_in_range ops"
  shows "sized 48 48 (fst (gen_computer_panel lib ops g0))
       \<and> alpha (px (fst (gen_computer_panel lib ops g0)) (x, y))
           = (if 2 \<le> x \<and> x \<le> 45 \<and> 2 \<le> y \<and> y \<le> 45 then 255 else 0)"
  using computer_panel_opaque_on[OF assms, of g0] computer_panel_sized[of lib ops g0]
  by (simp add: opaque_on_def panel_casing_def in_box_def)

text \<open>The concrete library and generator meet the hypotheses; the middle pixel is opaque.\<close>

theorem computer_panel_alpha_witness:
  "shapes_in_box plain_pil \<and> lines_in_box plain_pil \<and> randint_in_range counter_rng
   \<and> alpha (px (fst (gen_computer_panel plain_pil counter_rng 0)) (24, 24)) = 255"
  using computer_panel_alpha[OF plain_pil_shapes plain_pil_lines counter_rng_randint, of 0 24 24]
    plain_pil_shapes plain_pil_lines counter_rng_randint
  by simp

subsection \<open>C5: transparent pixels stay transparent\<close>

text \<open>
  C5.  The shading bodies of the barrel and the column and the noise body of
  both return a pixel whose alpha is not positive exactly as it was, with the
  generator untouched.  Hence each shading loop leaves every pixel that was
  transparent after the body fill as it was, and in the outputs of
  \<^verbatim>\<open>gen_barrel\<close> and \<^verbatim>\<open>gen_tech_column\<close> every pixel the drawing steps left with
  alpha 0 is unchanged; the four corners \<open>(0, 0)\<close>, \<open>(31, 0)\<close>, \<open>(0, 47)\<close>,
  \<open>(31, 47)\<close> of the 32 by 48 barrel have alpha 0.  (The library's ellipses are
  assumed to lie in their bounding boxes.)
\<close>

theorem transparent_pixels_kept:
  assumes "shapes_in_box lib"
  shows "(alpha c \<le> 0 \<longrightarrow>
            barrel_shade_step l r p c gs = (c, gs) \<and> column_shade_step l r p c gs = (c, gs)
            \<and> sprite_noise_step ops k p c gs = (c, gs))
       \<and> (\<exists>shaded g. barrel_shaded g0 = Inr (shaded, g)
            \<and> (\<forall>q. alpha (px (draw_rectangle (new_image 32 48 (0, 0, 0, 0)) (4, 6, 27, 44) (90, 75, 55, 255)) q) = 0
                  \<longrightarrow> px shaded q = px (draw_rectangle (new_image 32 48 (0, 0, 0, 0)) (4, 6, 27, 44) (90, 75, 55, 255)) q))
       \<and> (\<exists>shaded g. column_shaded g0 = Inr (shaded, g)
            \<and> (\<forall>q. alpha (px (draw_rectangle (new_image 24 64 (0, 0, 0, 0)) (4, 2, 19, 61) (100, 100, 105, 255)) q) = 0
                  \<longrightarrow> px shaded q = px (draw_rectangle (new_image 24 64 (0, 0, 0, 0)) (4, 2, 19, 61) (100, 100, 105, 255)) q))
       \<and> (\<exists>drawn g1 final g2. barrel_drawn lib g0 = Inr (drawn, g1)
            \<and> gen_barrel lib ops g0 = Inr (final, g2) \<and> sized 32 48 final
            \<and> (\<forall>q. alpha (px drawn q) = 0 \<longrightarrow> px final q = px drawn q)
            \<and> alpha (px final (0, 0)) = 0 \<and> alpha (px final (31, 0)) = 0
            \<and> alpha (px final (0, 47)) = 0 \<and> alpha (px final (31, 47)) = 0)
       \<and> (\<exists>drawn g1 final g2. column_drawn lib g0 = Inr (drawn, g1)
            \<and> gen_tech_column lib ops g0 = Inr (final, g2) \<and> sized 24 64 final
            \<and> (\<forall>q. alpha (px drawn q) = 0 \<longrightarrow> px final q = px drawn q))"
proof (intro conjI)
  show "alpha c \<le> 0 \<longrightarrow>
            barrel_shade_step l r p c gs = (c, gs) \<and> column_shade_step l r p c gs = (c, gs)
            \<and> sprite_noise_step ops k p c gs = (c, gs)"
    by (simp add: barrel_shade_step_skip column_shade_step_skip sprite_noise_step_skip)
  show "\<exists>shaded g. barrel_shaded g0 = Inr (shaded, g)
            \<and> (\<forall>q. alpha (px (draw_rectangle (new_image 32 48 (0, 0, 0, 0)) (4, 6, 27, 44) (90, 75, 55, 255)) q) = 0
                  \<longrightarrow> px shaded q = px (draw_rectangle (new_image 32 48 (0, 0, 0, 0)) (4, 6, 27, 44) (90, 75, 55, 255)) q)"
    using barrel_shaded_run[of g0] by blast
  show "\<exists>shaded g. column_shaded g0 = Inr (shaded, g)
            \<and> (\<forall>q. alpha (px (draw_rectangle (new_image 24 64 (0, 0, 0, 0)) (4, 2, 19, 61) (100, 100, 105, 255)) q) = 0
                  \<longrightarrow> px shaded q = px (draw_rectangle (new_image 24 64 (0, 0, 0, 0)) (4, 2, 19, 61) (100, 100, 105, 255)) q)"
    using column_shaded_run[of g0] by blast
  show "\<exists>drawn g1 final g2. barrel_drawn lib g0 = Inr (drawn, g1)
            \<and> gen_barrel lib ops g0 = Inr (final, g2) \<and> sized 32 48 final
            \<and> (\<forall>q. alpha (px drawn q) = 0 \<longrightarrow> px final q = px drawn q)
            \<and> alpha (px final (0, 0)) = 0 \<and> alpha (px final (31, 0)) = 0
            \<and> alpha (px final (0, 47)) = 0 \<and> alpha (px final (31, 47)) = 0"
  proof -
    obtain drawn g1 final g2 where r: "barrel_drawn lib g0 = Inr (drawn, g1)"
      "gen_barrel lib ops g0 = Inr (final, g2)" "sized 32 48 final"
      "\<forall>q. alpha (px drawn q) = 0 \<longrightarrow> px final q = px drawn q"
      "clear_outside (in_box (4, 3, 27, 44)) final"
      using gen_barrel_run[OF assms, of g0 ops] by blast
    have "px final (0, 0) = (0, 0, 0, 0)" "px final (31, 0) = (0, 0, 0, 0)"
      "px final (0, 47) = (0, 0, 0, 0)" "px final (31, 47) = (0, 0, 0, 0)"
      using r(5) by (simp_all add: clear_outside_def in_box_def)
    then have "alpha (px final (0, 0)) = 0" "alpha (px final (31, 0)) = 0"
      "alpha (px final (0, 47)) = 0" "alpha (px final (31, 47)) = 0" by simp_all
    then show ?thesis using r(1-4) by blast
  qed
  show "\<exists>drawn g1 final g2. column_drawn lib g0 = Inr (drawn, g1)
            \<and> gen_tech_column lib ops g0 = Inr (final, g2) \<and> sized 24 64 final
            \<and> (\<forall>q. alpha (px drawn q) = 0 \<longrightarrow> px final q = px drawn q)"
    using gen_tech_column_run[of lib g0 ops] by blast
qed

text \<open>On the concrete library and generator: a transparent pixel and a corner of the barrel.\<close>

theorem transparent_pixels_kept_witness:
  "shapes_in_box plain_pil
   \<and> alpha (0, 0, 0, 0) \<le> 0
   \<and> barrel_shade_step 4 27 (0, 0) (0, 0, 0, 0) (0::nat) = ((0, 0, 0, 0), 0)
   \<and> sprite_noise_step counter_rng 8 (0, 0) (0, 0, 0, 0) 0 = ((0, 0, 0, 0), 0)
   \<and> (\<exists>final g. gen_barrel plain_pil counter_rng 0 = Inr (final, g) \<and> alpha (px final (0, 0)) = 0)"
proof -
  note t = transparent_pixels_kept[OF plain_pil_shapes, where c = "(0, 0, 0, 0)" and l = 4 and r = 27
      and p = "(0, 0)" and gs = "0::nat" and ops = counter_rng and k = 8 and ?g0.0 = "0::nat"]
  have a: "alpha (0, 0, 0, 0) \<le> 0" by simp
  have "barrel_shade_step 4 27 (0, 0) (0, 0, 0, 0) (0::nat) = ((0, 0, 0, 0), 0)"
    "sprite_noise_step counter_rng 8 (0, 0) (0, 0, 0, 0) 0 = ((0, 0, 0, 0), 0)"
    using t[THEN conjunct1] a by simp_all
  moreover have "\<exists>final g. gen_barrel plain_pil counter_rng 0 = Inr (final, g) \<and> alpha (px final (0, 0)) = 0"
    using t[THEN conjunct2, THEN conjunct2, THEN conjunct2, THEN conjunct1] by blast
  ultimately show ?thesis using plain_pil_shapes a by blast
qed

subsection \<open>C9: the centre of the barrel\<close>

text \<open>
  C9 as stated fails.  The sprite is 32 by 48, so its centre is the pixel
  \<open>(16, 24)\<close>.  The glow is not drawn there: both ellipses of the symbol are centred
  on \<open>(mid_x, mid_y) = (15, 25)\<close>, the middle of the barrel body, and \<open>(16, 24)\<close> is a
  corner of the box \<open>[14, 24, 16, 26]\<close> of the inner one.  With a library whose
  ellipse leaves the corners of a box of three by three pixels out, the pixel at
  \<open>(16, 24)\<close> holds the darker green of the symbol and is not in the band of the
  glow.
\<close>

theorem barrel_centre_counterexample:
  "map_option near_glow (pixel_of (gen_barrel plain_pil counter_rng 0) (32 div 2, 48 div 2)) = Some False"
proof -
  obtain final g where r: "gen_barrel plain_pil counter_rng 0 = Inr (final, g)" "sized 32 48 final"
    "near_glow (px final (16, 24)) \<longleftrightarrow> pil_ellipse_fill plain_pil (14, 24, 16, 26) (16, 24)"
    using gen_barrel_glow_box[OF plain_pil_shapes counter_rng_randint, of "(16, 24)" "0::nat"]
    by (auto simp: in_box_def)
  have "\<not> pil_ellipse_fill plain_pil (14, 24, 16, 26) (16, 24)"
    by (simp add: plain_pil_def plain_ellipse_def)
  then have "\<not> near_glow (px final (16, 24))" using r(3) by simp
  moreover have "in_bounds final (16, 24)" using r(2) by (simp add: sized_in_bounds)
  ultimately show ?thesis using r(1) by (simp add: pixel_of_Inr)
qed

text \<open>
  C9, amended.  With the seed 111 as in the code, \<^verbatim>\<open>gen_barrel\<close> returns a 32 by 48
  image whose pixel at \<open>(mid_x, mid_y) = (15, 25)\<close>, the middle of the barrel body on
  which the glow is centred, is the inner glow colour \<open>(80, 200, 50)\<close> shifted by one
  noise value \<open>v\<close> with \<open>-8 \<le> v \<le> 8\<close> on every colour channel, and has alpha 255.
  Of the four pixels around the centre of the canvas, \<open>(16, 24)\<close> and \<open>(15, 24)\<close> are
  in the band of the glow exactly when the library's inner ellipse covers them,
  and \<open>(16, 23)\<close> and \<open>(15, 23)\<close> never are.  Assumed of the library: ellipses lie in
  their bounding boxes and cover the centre of a box of odd size; assumed of the
  generator: \<open>randint\<close> stays in its range.
\<close>

theorem barrel_glow_pixel:
  assumes "shapes_in_box lib" and "ellipse_centre_filled lib" and "randint_in_range ops"
  shows "\<exists>final g v. gen_barrel lib ops g0 = Inr (final, g) \<and> iw final = 32 \<and> ih final = 48
           \<and> ((4 + 27) div 2, (6 + 44) div 2) = (15 :: int, 25 :: int)
           \<and> - 8 \<le> v \<and> v \<le> 8
           \<and> px final (15, 25) = (80 + v, 200 + v, 50 + v, 255)
           \<and> near_glow (px final (15, 25))
           \<and> near_glow (px final (16, 24)) = pil_ellipse_fill lib (14, 24, 16, 26) (16, 24)
           \<and> near_glow (px final (15, 24)) = pil_ellipse_fill lib (14, 24, 16, 26) (15, 24)
           \<and> near_glow (px final (16, 23)) = False
           \<and> near_glow (px final (15, 23)) = False"
proof -
  obtain drawn g1 final g2 where r: "barrel_drawn lib g0 = Inr (drawn, g1)"
      "gen_barrel lib ops g0 = Inr (final, g2)" "sized 32 48 final"
      "\<exists>s. px final (15, 25) = fst (sprite_noise_step ops 8 (15, 25) (px drawn (15, 25)) s)"
      "ellipse_centre_filled lib \<longrightarrow> px drawn (15, 25) = (80, 200, 50, 255)"
    using gen_barrel_run[OF assms(1), of g0 ops] by blast
  obtain s where s: "px final (15, 25) = fst (sprite_noise_step ops 8 (15, 25) (80, 200, 50, 255) s)"
    using r(4,5) assms(2) by auto
  obtain v s' where v: "rng_randint ops (- 8) 8 s = (v, s')" by (cases "rng_randint ops (- 8) 8 s")
  have b: "- 8 \<le> v" "v \<le> 8" using randint_bounds[OF assms(3) _ v] by simp_all
  have "px final (15, 25) = (clamp255 (80 + v), clamp255 (200 + v), clamp255 (50 + v), 255)"
    using s v by (simp add: sprite_noise_step_def)
  then have c: "px final (15, 25) = (80 + v, 200 + v, 50 + v, 255)"
    using b by (simp add: clamp255_def)
  have n: "near_glow (px final (15, 25))" unfolding s by (rule near_glow_noise(1)[OF assms(3)])
  have q: "near_glow (px final p) = pil_ellipse_fill lib (14, 24, 16, 26) p"
    if "in_box (11, 22, 19, 28) p" for p
    using gen_barrel_glow_box[OF assms(1,3) that, of g0] r(2) by auto
  have out: "\<not> pil_ellipse_fill lib (14, 24, 16, 26) (16, 23)"
    "\<not> pil_ellipse_fill lib (14, 24, 16, 26) (15, 23)"
  proof -
    have "\<not> in_box (14, 24, 16, 26) (16, 23)" "\<not> in_box (14, 24, 16, 26) (15, 23)"
      by (simp_all add: in_box_def)
    then show "\<not> pil_ellipse_fill lib (14, 24, 16, 26) (16, 23)"
      "\<not> pil_ellipse_fill lib (14, 24, 16, 26) (15, 23)"
      using shapes_in_boxD(1)[OF assms(1)] by blast+
  qed
  have q1: "near_glow (px final (16, 24)) = pil_ellipse_fill lib (14, 24, 16, 26) (16, 24)"
    by (rule q) (simp add: in_box_def)
  have q2: "near_glow (px final (15, 24)) = pil_ellipse_fill lib (14, 24, 16, 26) (15, 24)"
    by (rule q) (simp add: in_box_def)
  have q3: "near_glow (px final (16, 23)) = False" using q[of "(16, 23)"] out by (simp add: in_box_def)
  have q4: "near_glow (px final (15, 23)) = False" using q[of "(15, 23)"] out by (simp add: in_box_def)
  have z: "iw final = 32" "ih final = 48" using r(3) by (simp_all add: sized_def)
  have m: "((4 + 27) div 2, (6 + 44) div 2) = (15 :: int, 25 :: int)" by simp
  show ?thesis
    by (intro exI conjI; (fact r(2) z m b c n q1 q2 q3 q4)?)
qed

text \<open>
  The concrete library and generator meet the three hypotheses; there the glow
  covers \<open>(15, 25)\<close> and \<open>(15, 24)\<close> and not \<open>(16, 24)\<close>.
\<close>

theorem barrel_glow_pixel_witness:
  "shapes_in_box plain_pil \<and> ellipse_centre_filled plain_pil \<and> randint_in_range counter_rng
   \<and> (\<exists>final g. gen_barrel plain_pil counter_rng 0 = Inr (final, g)
         \<and> near_glow (px final (15, 25)) \<and> near_glow (px final (15, 24))
         \<and> near_glow (px final (16, 24)) = False)"
proof -
  obtain final g where r: "gen_barrel plain_pil counter_rng 0 = Inr (final, g)"
    "near_glow (px final (15, 25))"
    "near_glow (px final (16, 24)) = pil_ellipse_fill plain_pil (14, 24, 16, 26) (16, 24)"
    "near_glow (px final (15, 24)) = pil_ellipse_fill plain_pil (14, 24, 16, 26) (15, 24)"
    using barrel_glow_pixel[OF plain_pil_shapes plain_pil_centre counter_rng_randint, where ?g0.0 = "0::nat"]
    by (elim exE conjE) 
  have "pil_ellipse_fill plain_pil (14, 24, 16, 26) (16, 24) = False"
    "pil_ellipse_fill plain_pil (14, 24, 16, 26) (15, 24) = True"
    by (simp_all add: plain_pil_def plain_ellipse_def in_box_def)
  then have "near_glow (px final (15, 24))" "near_glow (px final (16, 24)) = False"
    using r(3,4) by simp_all
  then show ?thesis using r(1,2) plain_pil_shapes plain_pil_centre counter_rng_randint by blast
qed

subsection \<open>C2: where the noise is seeded\<close>




subsection \<open>C8: range invariants\<close>



end
